theory Spec2Isabelle
  imports Main "HOL-Library.Word"
begin

section \<open>The persistent store (storage.js)\<close>

text \<open>
  The store owns one JSON document: \<open>config\<close>, \<open>pages\<close>, \<open>history\<close> and
  \<open>settings\<close>. Every method of \<open>StorageService\<close> reads the document, mutates it in
  place and writes it back; the model passes the document in and returns the new one.
  The texts of the store (names, identifiers, links, titles, tokens) are modelled as
  \<open>string\<close>, each character one code unit below 256; the secret that the cipher
  protects is a sequence of 16-bit code units. \<open>null\<close> and \<open>undefined\<close> are \<open>None\<close>.
  The identifier drawn by \<open>nanoid()\<close> and the
  time stamp produced by \<open>dayjs().toISOString()\<close> are arguments of the operation that
  draws them.
\<close>

record page =
  p_id :: string
  p_name :: string
  p_pageId :: string
  p_url :: "string option"
  p_isDefault :: bool
  p_createdAt :: string
  p_updatedAt :: "string option"

record history_record =
  h_id :: string
  h_title :: string
  h_pageConfigId :: string
  h_notionPageId :: "string option"
  h_notionUrl :: "string option"
  h_status :: string
  h_error :: "string option"
  h_createdAt :: string

record config =
  apiKey :: "string option"
  defaultPageId :: "string option"

record settings =
  autoOpenNotion :: bool
  autoClearInput :: bool
  maxFileSize :: int

record data =
  config :: config
  pages :: "page list"
  history :: "history_record list"
  settings :: settings

definition defaultData :: data where
  "defaultData =
     \<lparr>config = \<lparr>apiKey = None, defaultPageId = None\<rparr>,
      pages = [],
      history = [],
      settings = \<lparr>autoOpenNotion = False, autoClearInput = True, maxFileSize = 10485760\<rparr>\<rparr>"

subsection \<open>Page configurations\<close>

text \<open>The argument of \<open>addPage\<close>, as the POST route builds it: \<open>isDefault\<close> may be absent.\<close>

record page_input =
  i_name :: string
  i_pageId :: string
  i_url :: "string option"
  i_isDefault :: "bool option"

text \<open>
  The \<open>updates\<close> object of \<open>updatePage\<close> is the body of the PUT request. The route's
  schema declares \<open>name\<close> and \<open>isDefault\<close> and lets every other property through, and
  \<open>Object.assign\<close> copies every property that is present onto the stored page: each
  property of a page may be absent (\<open>None\<close>) or present with a value of the page's type
  (\<open>url\<close> may be present and \<open>null\<close>). A property that no page has changes nothing the
  store reads and is left out.
\<close>

record page_updates =
  u_id :: "string option"
  u_name :: "string option"
  u_pageId :: "string option"
  u_url :: "string option option"
  u_isDefault :: "bool option"
  u_createdAt :: "string option"
  u_updatedAt :: "string option"

text \<open>\<open>Array.prototype.findIndex\<close>: the first index whose element satisfies the
  predicate; the source's \<open>-1\<close> is \<open>None\<close>.\<close>

fun findIndex :: "('a \<Rightarrow> bool) \<Rightarrow> 'a list \<Rightarrow> nat option" where
  "findIndex P [] = None"
| "findIndex P (x # xs) =
     (if P x then Some 0 else (case findIndex P xs of None \<Rightarrow> None | Some i \<Rightarrow> Some (Suc i)))"

text \<open>\<open>x || null\<close> on a string or \<open>null\<close>: the empty string is falsy.\<close>

definition or_null :: "'a list option \<Rightarrow> 'a list option" where
  "or_null v = (case v of None \<Rightarrow> None | Some s \<Rightarrow> if s = [] then None else Some s)"

definition addPage :: "string \<Rightarrow> string \<Rightarrow> page_input \<Rightarrow> data \<Rightarrow> page \<times> data" where
  "addPage nanoid now pg d =
     (let newPage = \<lparr>p_id = nanoid, p_name = i_name pg, p_pageId = i_pageId pg,
                      p_url = or_null (i_url pg),
                      p_isDefault = (case i_isDefault pg of None \<Rightarrow> False | Some b \<Rightarrow> b),
                      p_createdAt = now, p_updatedAt = None\<rparr>
      in if p_isDefault newPage \<or> length (pages d) = 0
         then (let newPage' = newPage\<lparr>p_isDefault := True\<rparr>
               in (newPage',
                   d\<lparr>pages := map (\<lambda>p. p\<lparr>p_isDefault := False\<rparr>) (pages d) @ [newPage'],
                     config := (config d)\<lparr>defaultPageId := Some (p_id newPage')\<rparr>\<rparr>))
         else (newPage, d\<lparr>pages := pages d @ [newPage]\<rparr>))"

text \<open>\<open>Object.assign(page, updates, { updatedAt })\<close>: the properties of \<open>updates\<close>, then
  the time stamp, which overwrites an \<open>updatedAt\<close> of the body.\<close>

definition assign_updates :: "page \<Rightarrow> page_updates \<Rightarrow> string \<Rightarrow> page" where
  "assign_updates p u now =
     (let p1 = (case u_id u of None \<Rightarrow> p | Some x \<Rightarrow> p\<lparr>p_id := x\<rparr>);
          p2 = (case u_name u of None \<Rightarrow> p1 | Some x \<Rightarrow> p1\<lparr>p_name := x\<rparr>);
          p3 = (case u_pageId u of None \<Rightarrow> p2 | Some x \<Rightarrow> p2\<lparr>p_pageId := x\<rparr>);
          p4 = (case u_url u of None \<Rightarrow> p3 | Some x \<Rightarrow> p3\<lparr>p_url := x\<rparr>);
          p5 = (case u_isDefault u of None \<Rightarrow> p4 | Some x \<Rightarrow> p4\<lparr>p_isDefault := x\<rparr>);
          p6 = (case u_createdAt u of None \<Rightarrow> p5 | Some x \<Rightarrow> p5\<lparr>p_createdAt := x\<rparr>);
          p7 = (case u_updatedAt u of None \<Rightarrow> p6 | Some x \<Rightarrow> p6\<lparr>p_updatedAt := Some x\<rparr>)
      in p7\<lparr>p_updatedAt := Some now\<rparr>)"

definition updatePage :: "string \<Rightarrow> string \<Rightarrow> page_updates \<Rightarrow> data \<Rightarrow> page option \<times> data" where
  "updatePage now i u d =
     (case findIndex (\<lambda>p. p_id p = i) (pages d) of
        None \<Rightarrow> (None, d)
      | Some index \<Rightarrow>
          (let pg = assign_updates (pages d ! index) u now;
               ps = (pages d)[index := pg]
           in if u_isDefault u = Some True
              then (Some pg,
                    d\<lparr>pages := map (\<lambda>p. if p_id p \<noteq> i then p\<lparr>p_isDefault := False\<rparr> else p) ps,
                      config := (config d)\<lparr>defaultPageId := Some i\<rparr>\<rparr>)
              else (Some pg, d\<lparr>pages := ps\<rparr>)))"

definition deletePage :: "string \<Rightarrow> data \<Rightarrow> bool \<times> data" where
  "deletePage i d =
     (case findIndex (\<lambda>p. p_id p = i) (pages d) of
        None \<Rightarrow> (False, d)
      | Some index \<Rightarrow>
          (let wasDefault = p_isDefault (pages d ! index);
               ps = take index (pages d) @ drop (Suc index) (pages d)
           in if wasDefault \<and> length ps > 0
              then (let ps' = ps[0 := (ps ! 0)\<lparr>p_isDefault := True\<rparr>]
                    in (True, d\<lparr>pages := ps',
                                config := (config d)\<lparr>defaultPageId := Some (p_id (ps' ! 0))\<rparr>\<rparr>))
              else if length ps = 0
              then (True, d\<lparr>pages := ps, config := (config d)\<lparr>defaultPageId := None\<rparr>\<rparr>)
              else (True, d\<lparr>pages := ps\<rparr>)))"

definition getDefaultPage :: "data \<Rightarrow> page option" where
  "getDefaultPage d = find p_isDefault (pages d)"

text \<open>One mutation of the page collection, with what the environment supplies to it.\<close>

datatype page_op =
    AddPage string string page_input
  | UpdatePage string string page_updates
  | DeletePage string

fun apply_page_op :: "data \<Rightarrow> page_op \<Rightarrow> data" where
  "apply_page_op d (AddPage nanoid now pg) = snd (addPage nanoid now pg d)"
| "apply_page_op d (UpdatePage now i u) = snd (updatePage now i u d)"
| "apply_page_op d (DeletePage i) = snd (deletePage i d)"

definition run_page_ops :: "page_op list \<Rightarrow> data" where
  "run_page_ops ops = foldl apply_page_op defaultData ops"

definition default_count :: "data \<Rightarrow> nat" where
  "default_count d = length (filter p_isDefault (pages d))"

subsection \<open>History\<close>

record history_input =
  r_title :: string
  r_pageConfigId :: string
  r_notionPageId :: "string option"
  r_notionUrl :: "string option"
  r_status :: string
  r_error :: "string option"

definition newRecord :: "string \<Rightarrow> string \<Rightarrow> history_input \<Rightarrow> history_record" where
  "newRecord nanoid now r =
     \<lparr>h_id = nanoid, h_title = r_title r, h_pageConfigId = r_pageConfigId r,
      h_notionPageId = r_notionPageId r, h_notionUrl = r_notionUrl r,
      h_status = r_status r, h_error = or_null (r_error r), h_createdAt = now\<rparr>"

definition addHistory :: "string \<Rightarrow> string \<Rightarrow> history_input \<Rightarrow> data \<Rightarrow> history_record \<times> data" where
  "addHistory nanoid now r d =
     (let hist = newRecord nanoid now r # history d
      in (newRecord nanoid now r,
          d\<lparr>history := (if length hist > 100 then take 100 hist else hist)\<rparr>))"

text \<open>\<open>Array.prototype.slice(0, end)\<close> for an integer \<open>end\<close>: a negative end counts
  from the end of the array.\<close>

definition slice0 :: "'a list \<Rightarrow> int \<Rightarrow> 'a list" where
  "slice0 xs e = (if e < 0 then take (nat (int (length xs) + e)) xs else take (nat e) xs)"

text \<open>\<open>String.prototype.toLowerCase\<close> on code units below 256: the ASCII capitals and
  the Latin-1 capitals (all of U+00C0 to U+00DE but the multiplication sign) move up by 32.\<close>

definition lower_char :: "char \<Rightarrow> char" where
  "lower_char c =
     (let n = (of_char c :: nat)
      in if (65 \<le> n \<and> n \<le> 90) \<or> (192 \<le> n \<and> n \<le> 222 \<and> n \<noteq> 215)
         then char_of (n + 32) else c)"

definition toLowerCase :: "string \<Rightarrow> string" where
  "toLowerCase s = map lower_char s"

text \<open>\<open>String.prototype.includes\<close>: the needle starts at some position of the string.\<close>

fun includes_str :: "string \<Rightarrow> string \<Rightarrow> bool" where
  "includes_str [] t = (t = [])"
| "includes_str (c # cs) t = (take (length t) (c # cs) = t \<or> includes_str cs t)"

text \<open>The \<open>limit\<close> argument of \<open>getHistory\<close>. The default of the parameter applies to
  \<open>undefined\<close> only; \<open>null\<close> reaches \<open>slice(0, null)\<close>, whose end is \<open>0\<close>. For \<open>search\<close>
  the two behave alike (\<open>undefined\<close> becomes the empty string, and the empty string and
  \<open>null\<close> are both falsy), so \<open>None\<close> stands for both.\<close>

datatype limit_arg = LimitUndefined | LimitNull | Limit int

definition getHistory :: "limit_arg \<Rightarrow> string option \<Rightarrow> data \<Rightarrow> history_record list" where
  "getHistory limit search d =
     (let lim = (case limit of LimitUndefined \<Rightarrow> 50 | LimitNull \<Rightarrow> 0 | Limit l \<Rightarrow> l);
          s = (case search of None \<Rightarrow> [] | Some x \<Rightarrow> x);
          hist = history d;
          hist' = (if s \<noteq> []
                   then (let searchLower = toLowerCase s
                         in filter (\<lambda>h. includes_str (toLowerCase (h_title h)) searchLower) hist)
                   else hist)
      in slice0 hist' lim)"

text \<open>A run of \<open>addHistory\<close> calls from the empty store; each call comes with the
  identifier and time stamp it draws.\<close>

definition run_history :: "(string \<times> string \<times> history_input) list \<Rightarrow> data" where
  "run_history rs = foldl (\<lambda>d (n, t, r). snd (addHistory n t r d)) defaultData rs"

section \<open>The secret cipher (crypto.js)\<close>

text \<open>
  The secret that \<open>encrypt\<close> takes and \<open>decrypt\<close> returns is a JavaScript string: a
  sequence of 16-bit code units, in which a surrogate may stand without its partner.
  Buffers are sequences of bytes. A token is text made of base64 digits and a colon and
  is kept as a \<open>string\<close>, like every other text of the store.
\<close>

type_synonym code_unit = "16 word"
type_synonym byte = "8 word"

text \<open>A text whose characters are below 256, as code units.\<close>

definition js_string :: "string \<Rightarrow> code_unit list" where
  "js_string s = map (\<lambda>c. of_nat (of_char c)) s"

subsection \<open>Strings and UTF-8 in Node\<close>

text \<open>
  \<open>cipher.update(text, 'utf8', \<dots>)\<close> and \<open>hash.update(text)\<close> write a string into a
  buffer as UTF-8. A high surrogate followed by a low surrogate is one code point above
  U+FFFF; any other surrogate is written as U+FFFD, the replacement character.
\<close>

definition is_high :: "nat \<Rightarrow> bool" where
  "is_high n = (55296 \<le> n \<and> n \<le> 56319)"

definition is_low :: "nat \<Rightarrow> bool" where
  "is_low n = (56320 \<le> n \<and> n \<le> 57343)"

definition is_surrogate :: "nat \<Rightarrow> bool" where
  "is_surrogate n = (55296 \<le> n \<and> n \<le> 57343)"

fun code_points :: "code_unit list \<Rightarrow> nat list" where
  "code_points [] = []"
| "code_points [u] = [if is_surrogate (unat u) then 65533 else unat u]"
| "code_points (u # v # us) =
     (if is_high (unat u) \<and> is_low (unat v)
      then (65536 + (unat u - 55296) * 1024 + (unat v - 56320)) # code_points us
      else (if is_surrogate (unat u) then 65533 else unat u) # code_points (v # us))"

definition utf8_bytes :: "nat \<Rightarrow> byte list" where
  "utf8_bytes cp =
     (if cp < 128 then [of_nat cp]
      else if cp < 2048 then [of_nat (192 + cp div 64), of_nat (128 + cp mod 64)]
      else if cp < 65536
      then [of_nat (224 + cp div 4096), of_nat (128 + (cp div 64) mod 64), of_nat (128 + cp mod 64)]
      else [of_nat (240 + cp div 262144), of_nat (128 + (cp div 4096) mod 64),
            of_nat (128 + (cp div 64) mod 64), of_nat (128 + cp mod 64)])"

definition utf8_encode :: "code_unit list \<Rightarrow> byte list" where
  "utf8_encode s = concat (map utf8_bytes (code_points s))"

text \<open>The code units of a code point: itself below U+10000, a surrogate pair above.\<close>

definition code_units :: "nat \<Rightarrow> code_unit list" where
  "code_units cp =
     (if cp < 65536 then [of_nat cp]
      else [of_nat (55296 + (cp - 65536) div 1024), of_nat (56320 + (cp - 65536) mod 1024)])"

definition continuation :: "nat \<Rightarrow> bool" where
  "continuation n = (128 \<le> n \<and> n \<le> 191)"

text \<open>
  \<open>decipher.update(\<dots>, 'base64', 'utf8')\<close> and \<open>decipher.final('utf8')\<close> read the
  deciphered bytes as UTF-8. A well-formed sequence of one to four bytes (not overlong,
  not a surrogate, not above U+10FFFF) gives its code point. What Node puts in place of
  bytes that are not well-formed UTF-8 is left to the argument \<open>replace\<close>, which is given
  the bytes from the first ill-formed one on.
\<close>

fun utf8_decode :: "(byte list \<Rightarrow> code_unit list) \<Rightarrow> byte list \<Rightarrow> code_unit list" where
  "utf8_decode replace [] = []"
| "utf8_decode replace (b0 # bs) =
     (if unat b0 < 128 then of_nat (unat b0) # utf8_decode replace bs
      else if 194 \<le> unat b0 \<and> unat b0 \<le> 223
      then (case bs of
              b1 # r1 \<Rightarrow>
                if continuation (unat b1)
                then of_nat ((unat b0 - 192) * 64 + (unat b1 - 128)) # utf8_decode replace r1
                else replace (b0 # bs)
            | _ \<Rightarrow> replace (b0 # bs))
      else if 224 \<le> unat b0 \<and> unat b0 \<le> 239
      then (case bs of
              b1 # b2 # r2 \<Rightarrow>
                if continuation (unat b1) \<and> continuation (unat b2)
                   \<and> 2048 \<le> (unat b0 - 224) * 4096 + (unat b1 - 128) * 64 + (unat b2 - 128)
                   \<and> \<not> is_surrogate ((unat b0 - 224) * 4096 + (unat b1 - 128) * 64 + (unat b2 - 128))
                then of_nat ((unat b0 - 224) * 4096 + (unat b1 - 128) * 64 + (unat b2 - 128))
                       # utf8_decode replace r2
                else replace (b0 # bs)
            | _ \<Rightarrow> replace (b0 # bs))
      else if 240 \<le> unat b0 \<and> unat b0 \<le> 244
      then (case bs of
              b1 # b2 # b3 # r3 \<Rightarrow>
                if continuation (unat b1) \<and> continuation (unat b2) \<and> continuation (unat b3)
                   \<and> 65536 \<le> (unat b0 - 240) * 262144 + (unat b1 - 128) * 4096
                                + (unat b2 - 128) * 64 + (unat b3 - 128)
                   \<and> (unat b0 - 240) * 262144 + (unat b1 - 128) * 4096
                        + (unat b2 - 128) * 64 + (unat b3 - 128) \<le> 1114111
                then code_units ((unat b0 - 240) * 262144 + (unat b1 - 128) * 4096
                                 + (unat b2 - 128) * 64 + (unat b3 - 128))
                       @ utf8_decode replace r3
                else replace (b0 # bs)
            | _ \<Rightarrow> replace (b0 # bs))
      else replace (b0 # bs))"

subsection \<open>The primitives of the runtime\<close>

text \<open>
  \<open>encrypt\<close> and \<open>decrypt\<close> call Node's \<open>crypto\<close> and \<open>Buffer\<close>. The SHA-256 digest,
  the block cipher AES-256-CBC with PKCS#7 padding (the decipher throws on a ciphertext
  that is not a whole number of blocks and on bad padding: \<open>Inl\<close> with the error's
  message), the base64 codec and the \<open>SECRET_KEY\<close> variable of the process environment are
  the fields of an environment record. The initialization vector drawn by
  \<open>crypto.randomBytes(IV_LENGTH)\<close> is an argument of \<open>encrypt\<close>.
\<close>

record crypto_env =
  SECRET_KEY :: "code_unit list option"
  sha256 :: "byte list \<Rightarrow> byte list"
  aes_256_cbc_encrypt :: "byte list \<Rightarrow> byte list \<Rightarrow> byte list \<Rightarrow> byte list"
  aes_256_cbc_decrypt :: "byte list \<Rightarrow> byte list \<Rightarrow> byte list \<Rightarrow> string + byte list"
  base64_encode :: "byte list \<Rightarrow> string"
  base64_decode :: "string \<Rightarrow> byte list"
  utf8_replacement :: "byte list \<Rightarrow> code_unit list"

text \<open>What the services throw and catch: the two errors of \<open>decrypt\<close>, the error of
  \<open>initClient\<close>, and an error of the Notion client with its code and message.\<close>

datatype error =
    InvalidEncryptedTextFormat
  | CipherFailure string
  | ApiKeyNotConfigured
  | RemoteError "string option" "string option"

text \<open>\<open>crypto.createCipheriv('aes-256-cbc', key, iv)\<close> and \<open>crypto.createDecipheriv\<close>
  throw unless the key has 32 bytes and the initialization vector 16.\<close>

definition createCipheriv ::
  "crypto_env \<Rightarrow> byte list \<Rightarrow> byte list \<Rightarrow> string + (byte list \<Rightarrow> byte list)" where
  "createCipheriv env key iv =
     (if length key \<noteq> 32 then Inl ''Invalid key length''
      else if length iv \<noteq> 16 then Inl ''Invalid initialization vector''
      else Inr (aes_256_cbc_encrypt env key iv))"

definition createDecipheriv ::
  "crypto_env \<Rightarrow> byte list \<Rightarrow> byte list \<Rightarrow> string + (byte list \<Rightarrow> string + byte list)" where
  "createDecipheriv env key iv =
     (if length key \<noteq> 32 then Inl ''Invalid key length''
      else if length iv \<noteq> 16 then Inl ''Invalid initialization vector''
      else Inr (aes_256_cbc_decrypt env key iv))"

subsection \<open>encrypt and decrypt\<close>

definition IV_LENGTH :: nat where
  "IV_LENGTH = 16"

definition getSecretKey :: "crypto_env \<Rightarrow> byte list" where
  "getSecretKey env =
     sha256 env (utf8_encode (case or_null (SECRET_KEY env) of
                                None \<Rightarrow> js_string ''default_secret_key_32_characters!''
                              | Some k \<Rightarrow> k))"

definition encrypt :: "crypto_env \<Rightarrow> byte list \<Rightarrow> code_unit list option \<Rightarrow> error + string option" where
  "encrypt env iv text =
     (case or_null text of
        None \<Rightarrow> Inr None
      | Some t \<Rightarrow>
          (let key = getSecretKey env
           in case createCipheriv env key iv of
                Inl message \<Rightarrow> Inl (CipherFailure message)
              | Inr cipher \<Rightarrow>
                  (let encrypted = base64_encode env (cipher (utf8_encode t))
                   in Inr (Some (base64_encode env iv @ '':'' @ encrypted)))))"

text \<open>\<open>String.prototype.split\<close> with a one-character separator: the fields between
  the separators, at least one.\<close>

fun split :: "char \<Rightarrow> string \<Rightarrow> string list" where
  "split sep [] = [[]]"
| "split sep (c # cs) =
     (if c = sep then [] # split sep cs
      else (case split sep cs of [] \<Rightarrow> [[c]] | f # fs \<Rightarrow> (c # f) # fs))"

text \<open>Array destructuring: the element at an index, \<open>undefined\<close> beyond the end.\<close>

definition element :: "'a list \<Rightarrow> nat \<Rightarrow> 'a option" where
  "element xs n = (if n < length xs then Some (xs ! n) else None)"

definition decrypt :: "crypto_env \<Rightarrow> string option \<Rightarrow> error + code_unit list option" where
  "decrypt env encryptedText =
     (case or_null encryptedText of
        None \<Rightarrow> Inr None
      | Some t \<Rightarrow>
          (let parts = split CHR '':'' t
           in case (or_null (element parts 0), or_null (element parts 1)) of
                (Some ivBase64, Some encrypted) \<Rightarrow>
                  (let iv = base64_decode env ivBase64;
                       key = getSecretKey env
                   in case createDecipheriv env key iv of
                        Inl message \<Rightarrow> Inl (CipherFailure message)
                      | Inr decipher \<Rightarrow>
                          (case decipher (base64_decode env encrypted) of
                             Inl message \<Rightarrow> Inl (CipherFailure message)
                           | Inr decrypted \<Rightarrow>
                               Inr (Some (utf8_decode (utf8_replacement env) decrypted))))
              | _ \<Rightarrow> Inl InvalidEncryptedTextFormat))"

subsection \<open>The stored credential\<close>

definition getApiKey :: "crypto_env \<Rightarrow> data \<Rightarrow> error + code_unit list option" where
  "getApiKey env d =
     (case or_null (apiKey (config d)) of
        None \<Rightarrow> Inr None
      | Some encrypted \<Rightarrow> decrypt env (Some encrypted))"

text \<open>\<open>setApiKey\<close> assigns the token to \<open>config.apiKey\<close>; when \<open>encrypt\<close> throws, nothing
  is assigned.\<close>

definition setApiKey ::
  "crypto_env \<Rightarrow> byte list \<Rightarrow> code_unit list option \<Rightarrow> data \<Rightarrow> error + data" where
  "setApiKey env iv key d =
     (case or_null key of
        None \<Rightarrow> Inr (d\<lparr>config := (config d)\<lparr>apiKey := None\<rparr>\<rparr>)
      | Some k \<Rightarrow>
          (case encrypt env iv (Some k) of
             Inl e \<Rightarrow> Inl e
           | Inr token \<Rightarrow> Inr (d\<lparr>config := (config d)\<lparr>apiKey := token\<rparr>\<rparr>)))"

definition hasApiKey :: "data \<Rightarrow> bool" where
  "hasApiKey d = (case or_null (apiKey (config d)) of None \<Rightarrow> False | Some c \<Rightarrow> True)"

text \<open>One mutation of the store, with what the environment supplies to it. A call that
  throws leaves the document as it was. The stores the program writes are those reached
  from the default document.\<close>

datatype store_op =
    SetApiKey crypto_env "byte list" "code_unit list option"
  | PageOp page_op
  | AddHistory string string history_input

fun apply_store_op :: "data \<Rightarrow> store_op \<Rightarrow> data" where
  "apply_store_op d (SetApiKey env iv key) =
     (case setApiKey env iv key d of Inl e \<Rightarrow> d | Inr d' \<Rightarrow> d')"
| "apply_store_op d (PageOp op) = apply_page_op d op"
| "apply_store_op d (AddHistory nanoid now r) = snd (addHistory nanoid now r d)"

definition run_store :: "store_op list \<Rightarrow> data" where
  "run_store ops = foldl apply_store_op defaultData ops"

section \<open>The remote publisher (notion.js)\<close>

text \<open>
  The Notion client is a collaborator: \<open>pages.create\<close> answers with the new page's id
  and url or throws, \<open>blocks.children.append\<close> answers or throws. The model takes both
  as functions of the request and records every request made, in order.
\<close>

datatype 'k remote_call =
    PagesCreate string string "'k list"
  | BlocksChildrenAppend string "'k list"

fun children :: "'k remote_call \<Rightarrow> 'k list" where
  "children (PagesCreate parent title bs) = bs"
| "children (BlocksChildrenAppend block_id bs) = bs"

record 'k client =
  pages_create :: "string \<Rightarrow> string \<Rightarrow> 'k list \<Rightarrow> error + (string \<times> string)"
  blocks_children_append :: "string \<Rightarrow> 'k list \<Rightarrow> error + unit"

definition MAX_BLOCKS_PER_REQUEST :: nat where
  "MAX_BLOCKS_PER_REQUEST = 100"

text \<open>\<open>Array.prototype.slice(start, end)\<close> for indices that are not negative.\<close>

definition slice :: "'a list \<Rightarrow> nat \<Rightarrow> nat \<Rightarrow> 'a list" where
  "slice xs start end = take (end - start) (drop start xs)"

definition initClient :: "crypto_env \<Rightarrow> data \<Rightarrow> error + code_unit list" where
  "initClient env d =
     (case getApiKey env d of
        Inl e \<Rightarrow> Inl e
      | Inr k \<Rightarrow> (case or_null k of None \<Rightarrow> Inl ApiKeyNotConfigured | Some key \<Rightarrow> Inr key))"

text \<open>The loop of \<open>appendBlocks\<close>, from index \<open>i\<close>: the requests made, and the error that
  ended the loop if one was thrown.\<close>

function appendBlocks_loop ::
  "'k client \<Rightarrow> string \<Rightarrow> 'k list \<Rightarrow> nat \<Rightarrow> 'k remote_call list \<times> error option" where
  "appendBlocks_loop cl pageId blocks i =
     (if i < length blocks
      then (let batch = slice blocks i (i + MAX_BLOCKS_PER_REQUEST)
            in case blocks_children_append cl pageId batch of
                 Inl e \<Rightarrow> ([BlocksChildrenAppend pageId batch], Some e)
               | Inr u \<Rightarrow>
                   (let (calls, err) = appendBlocks_loop cl pageId blocks (i + MAX_BLOCKS_PER_REQUEST)
                    in (BlocksChildrenAppend pageId batch # calls, err)))
      else ([], None))"
  by pat_completeness auto
termination
  by (relation "measure (\<lambda>(cl, pageId, blocks, i). length blocks - i)")
     (auto simp: MAX_BLOCKS_PER_REQUEST_def)

declare appendBlocks_loop.simps [simp del]

definition appendBlocks ::
  "crypto_env \<Rightarrow> data \<Rightarrow> 'k client \<Rightarrow> string \<Rightarrow> 'k list \<Rightarrow> 'k remote_call list \<times> error option" where
  "appendBlocks env d cl pageId blocks =
     (case initClient env d of
        Inl e \<Rightarrow> ([], Some e)
      | Inr key \<Rightarrow> appendBlocks_loop cl pageId blocks 0)"

text \<open>
  \<open>formatError\<close> looks the error's code up in the object literal \<open>errorMessages\<close>.
  The lookup \<open>errorMessages[code]\<close> also finds what the literal inherits from
  \<open>Object.prototype\<close>: for a code that is one of those names it yields the inherited
  function or object, which is truthy, and \<open>formatError\<close> returns it in place of a
  message.
\<close>

definition errorMessages :: "(string \<times> string) list" where
  "errorMessages =
     [(''unauthorized'', ''Invalid API key. Please check your Notion integration token.''),
      (''object_not_found'',
       ''Page not found. Please check if the page exists and is shared with your integration.''),
      (''rate_limited'', ''Too many requests. Please wait a moment and try again.''),
      (''validation_error'', ''Invalid request format. Please check your input.''),
      (''internal_server_error'', ''Notion server error. Please try again later.''),
      (''service_unavailable'',
       ''Notion service is temporarily unavailable. Please try again later.'')]"

definition object_prototype_properties :: "string list" where
  "object_prototype_properties =
     [''constructor'', ''__defineGetter__'', ''__defineSetter__'', ''hasOwnProperty'',
      ''__lookupGetter__'', ''__lookupSetter__'', ''isPrototypeOf'', ''propertyIsEnumerable'',
      ''toString'', ''valueOf'', ''__proto__'', ''toLocaleString'']"

datatype error_text =
    Message string
  | InheritedProperty string

definition formatError :: "error \<Rightarrow> error_text" where
  "formatError e =
     (let code = (case e of RemoteError c m \<Rightarrow> or_null c | _ \<Rightarrow> None);
          message = (case e of
                       InvalidEncryptedTextFormat \<Rightarrow> ''Invalid encrypted text format''
                     | CipherFailure m \<Rightarrow> (if m = [] then ''Unknown error occurred'' else m)
                     | ApiKeyNotConfigured \<Rightarrow> ''Notion API key is not configured''
                     | RemoteError c m \<Rightarrow>
                         (case or_null m of None \<Rightarrow> ''Unknown error occurred'' | Some x \<Rightarrow> x))
      in case code of
           None \<Rightarrow> Message message
         | Some c \<Rightarrow>
             (case map_of errorMessages c of
                Some text \<Rightarrow> Message text
              | None \<Rightarrow>
                  if c \<in> set object_prototype_properties then InheritedProperty c
                  else Message message))"

datatype create_result =
    Success string string string
  | Failure error_text

text \<open>\<open>createPage\<close> returns the result object; the model returns with it the requests
  that were made.\<close>

definition createPage ::
  "crypto_env \<Rightarrow> data \<Rightarrow> 'k client \<Rightarrow> string \<Rightarrow> string \<Rightarrow> 'k list
     \<Rightarrow> create_result \<times> 'k remote_call list" where
  "createPage env d cl parentPageId title blocks =
     (case initClient env d of
        Inl e \<Rightarrow> (Failure (formatError e), [])
      | Inr key \<Rightarrow>
          (let initialBlocks = slice blocks 0 MAX_BLOCKS_PER_REQUEST;
               remainingBlocks = drop MAX_BLOCKS_PER_REQUEST blocks;
               call = PagesCreate parentPageId title initialBlocks
           in case pages_create cl parentPageId title initialBlocks of
                Inl e \<Rightarrow> (Failure (formatError e), [call])
              | Inr (rid, rurl) \<Rightarrow>
                  (if length remainingBlocks > 0
                   then (case appendBlocks env d cl rid remainingBlocks of
                           (calls, Some e) \<Rightarrow> (Failure (formatError e), call # calls)
                         | (calls, None) \<Rightarrow> (Success rid rurl title, call # calls))
                   else (Success rid rurl title, [call]))))"

section \<open>The identifier extractor (validator.js)\<close>

subsection \<open>Regular expressions as the source writes them\<close>

text \<open>
  The four patterns of \<open>extractPageId\<close> are values of a small syntax of regular
  expressions, run by a backtracking matcher that follows ECMAScript: alternatives are
  tried in order, quantifiers are greedy, the leftmost start position wins, and the first
  successful alternative gives the capture. A state of the matcher is the rest of the
  input and what capture group 1 holds.
\<close>

text \<open>The canonical form of a character under the \<open>i\<close> flag is its upper case when
  that is one code unit. On code units below 256 the small ASCII letters and the small
  Latin-1 letters (U+00E0 to U+00FE but the division sign) move down by 32; the sharp s,
  the micro sign and the y with diaeresis have no upper case in this range and no other
  character of the range shares their canonical form, so they stay as they are.\<close>

definition upper_char :: "char \<Rightarrow> char" where
  "upper_char c =
     (let n = (of_char c :: nat)
      in if (97 \<le> n \<and> n \<le> 122) \<or> (224 \<le> n \<and> n \<le> 254 \<and> n \<noteq> 247)
         then char_of (n - 32) else c)"

datatype atom =
    Lit char
  | Ranges "(char \<times> char) list"
  | NotRanges "(char \<times> char) list"

fun in_ranges :: "(char \<times> char) list \<Rightarrow> char \<Rightarrow> bool" where
  "in_ranges [] c = False"
| "in_ranges ((lo, hi) # rs) c =
     (((of_char lo :: nat) \<le> of_char c \<and> (of_char c :: nat) \<le> of_char hi) \<or> in_ranges rs c)"

text \<open>With the \<open>i\<close> flag a character matches when its canonical form (its upper case)
  is the canonical form of a member of the class.\<close>

definition class_matches :: "bool \<Rightarrow> (char \<times> char) list \<Rightarrow> char \<Rightarrow> bool" where
  "class_matches ic rs c =
     (if ic then in_ranges rs c \<or> in_ranges rs (upper_char c) \<or> in_ranges rs (lower_char c)
      else in_ranges rs c)"

fun atom_matches :: "bool \<Rightarrow> atom \<Rightarrow> char \<Rightarrow> bool" where
  "atom_matches ic (Lit a) c = (if ic then upper_char a = upper_char c else a = c)"
| "atom_matches ic (Ranges rs) c = class_matches ic rs c"
| "atom_matches ic (NotRanges rs) c = (\<not> class_matches ic rs c)"

datatype re =
    Atom atom
  | Eps
  | Bol
  | Eol
  | Seq re re
  | Alt re re
  | Opt re
  | Star re
  | Group re

text \<open>\<open>r+\<close> and \<open>r{n}\<close>, and a literal string.\<close>

definition plus :: "re \<Rightarrow> re" where
  "plus r = Seq r (Star r)"

fun rep :: "nat \<Rightarrow> re \<Rightarrow> re" where
  "rep 0 r = Eps"
| "rep (Suc n) r = Seq r (rep n r)"

fun lit :: "string \<Rightarrow> re" where
  "lit [] = Eps"
| "lit (c # cs) = Seq (Atom (Lit c)) (lit cs)"

type_synonym mstate = "string \<times> string option"

text \<open>
  \<open>ms ic w r st\<close>: every way \<open>r\<close> can match from state \<open>st\<close> in the input \<open>w\<close>, in the
  order the backtracking tries them. An iteration of \<open>*\<close> that consumes nothing is
  rejected, as ECMAScript does.
\<close>

function ms :: "bool \<Rightarrow> string \<Rightarrow> re \<Rightarrow> mstate \<Rightarrow> mstate list" where
  "ms ic w (Atom a) st =
     (case fst st of [] \<Rightarrow> [] | c # cs \<Rightarrow> if atom_matches ic a c then [(cs, snd st)] else [])"
| "ms ic w Eps st = [st]"
| "ms ic w Bol st = (if length (fst st) = length w then [st] else [])"
| "ms ic w Eol st = (if fst st = [] then [st] else [])"
| "ms ic w (Seq r1 r2) st = concat (map (ms ic w r2) (ms ic w r1 st))"
| "ms ic w (Alt r1 r2) st = ms ic w r1 st @ ms ic w r2 st"
| "ms ic w (Opt r) st = ms ic w r st @ [st]"
| "ms ic w (Star r) st =
     concat (map (\<lambda>st'. if length (fst st') < length (fst st) then ms ic w (Star r) st' else [])
                 (ms ic w r st)) @ [st]"
| "ms ic w (Group r) st =
     map (\<lambda>st'. (fst st', Some (take (length (fst st) - length (fst st')) (fst st))))
         (ms ic w r st)"
  by pat_completeness auto
termination
  by (relation "inv_image (less_than <*lex*> less_than)
                  (\<lambda>(ic, w, r, st). (size r, length (fst st)))") auto

declare ms.simps(8) [simp del]

text \<open>\<open>RegExp.prototype.exec\<close> without the \<open>g\<close> flag: the first match from the leftmost
  start position that has one.\<close>

fun exec_from :: "bool \<Rightarrow> string \<Rightarrow> re \<Rightarrow> string \<Rightarrow> mstate option" where
  "exec_from ic w r [] =
     (case ms ic w r ([], None) of st # sts \<Rightarrow> Some st | [] \<Rightarrow> None)"
| "exec_from ic w r (c # cs) =
     (case ms ic w r (c # cs, None) of st # sts \<Rightarrow> Some st | [] \<Rightarrow> exec_from ic w r cs)"

definition re_exec :: "bool \<Rightarrow> re \<Rightarrow> string \<Rightarrow> mstate option" where
  "re_exec ic r w = exec_from ic w r w"

definition re_test :: "bool \<Rightarrow> re \<Rightarrow> string \<Rightarrow> bool" where
  "re_test ic r w = (re_exec ic r w \<noteq> None)"

subsection \<open>extractPageId\<close>

text \<open>\<open>String.prototype.trim\<close> on code units below 256: tab, line feed, vertical tab,
  form feed, carriage return, space and the no-break space are removed at both ends.\<close>

definition is_space :: "char \<Rightarrow> bool" where
  "is_space c = ((of_char c :: nat) \<in> {9, 10, 11, 12, 13, 32, 160})"

definition trim :: "string \<Rightarrow> string" where
  "trim s = rev (dropWhile is_space (rev (dropWhile is_space s)))"

definition hex :: re where
  "hex = Atom (Ranges [(CHR ''a'', CHR ''f''), (CHR ''0'', CHR ''9'')])"

definition dash :: re where
  "dash = Atom (Lit CHR ''-'')"

text \<open>\<open>/^[a-f0-9]{32}$/i\<close>\<close>

definition re_id :: re where
  "re_id = Seq Bol (Seq (rep 32 hex) Eol)"

text \<open>\<open>/^[a-f0-9]{8}-[a-f0-9]{4}-[a-f0-9]{4}-[a-f0-9]{4}-[a-f0-9]{12}$/i\<close>\<close>

definition re_uuid :: re where
  "re_uuid =
     Seq Bol (Seq (rep 8 hex) (Seq dash (Seq (rep 4 hex) (Seq dash (Seq (rep 4 hex)
       (Seq dash (Seq (rep 4 hex) (Seq dash (Seq (rep 12 hex) Eol)))))))))"

text \<open>\<open>/notion\.so\/(?:[^/]+\/)?(?:[^-]+-)*([a-f0-9]{32})/i\<close>\<close>

definition re_url :: re where
  "re_url =
     Seq (lit ''notion.so/'')
       (Seq (Opt (Seq (plus (Atom (NotRanges [(CHR ''/'', CHR ''/'')]))) (Atom (Lit CHR ''/''))))
         (Seq (Star (Seq (plus (Atom (NotRanges [(CHR ''-'', CHR ''-'')]))) dash))
           (Group (rep 32 hex))))"

text \<open>\<open>/([a-f0-9]{32})(?:\?|$)/i\<close>\<close>

definition re_last_hex :: re where
  "re_last_hex = Seq (Group (rep 32 hex)) (Alt (Atom (Lit CHR ''?'')) Eol)"

text \<open>The capture \<open>m[1]\<close> of a match result.\<close>

definition capture1 :: "mstate \<Rightarrow> string option" where
  "capture1 st = snd st"

definition extractPageId :: "string option \<Rightarrow> string option" where
  "extractPageId input =
     (case or_null input of
        None \<Rightarrow> None
      | Some s \<Rightarrow>
          (let trimmed = trim s
           in if re_test True re_id trimmed then Some trimmed
              else if re_test True re_uuid trimmed
              then Some (filter (\<lambda>c. c \<noteq> CHR ''-'') trimmed)
              else (case re_exec True re_url trimmed of
                      Some urlMatch \<Rightarrow> capture1 urlMatch
                    | None \<Rightarrow>
                        (case re_exec True re_last_hex trimmed of
                           Some lastHexMatch \<Rightarrow> capture1 lastHexMatch
                         | None \<Rightarrow> None))))"

section \<open>Notions of the specification\<close>

text \<open>The specification's \<open>decrypt(encrypt(x))\<close>, with the initialization vector that
  \<open>encrypt\<close> draws: when \<open>encrypt\<close> throws, the expression throws and \<open>decrypt\<close> is
  not called.\<close>

definition decrypt_encrypt ::
  "crypto_env \<Rightarrow> byte list \<Rightarrow> code_unit list option \<Rightarrow> error + code_unit list option" where
  "decrypt_encrypt env iv x =
     (case encrypt env iv x of Inl e \<Rightarrow> Inl e | Inr token \<Rightarrow> decrypt env token)"

text \<open>
  The laws of the library that a round trip through \<open>encrypt\<close> and \<open>decrypt\<close> relies
  on, each for all arguments: a SHA-256 digest has 32 bytes; under a key of 32 bytes and
  an initialization vector of 16 the cipher's output is not empty (it ends with a padded
  block) and the decipher inverts the cipher; base64 text has no colon, is not empty for a
  buffer that is not empty, and base64 decoding inverts base64 encoding.
\<close>

definition library_laws :: "crypto_env \<Rightarrow> bool" where
  "library_laws env =
     ((\<forall>m. length (sha256 env m) = 32)
      \<and> (\<forall>key iv m. length key = 32 \<and> length iv = 16 \<longrightarrow>
            aes_256_cbc_encrypt env key iv m \<noteq> []
            \<and> aes_256_cbc_decrypt env key iv (aes_256_cbc_encrypt env key iv m) = Inr m)
      \<and> (\<forall>bs. CHR '':'' \<notin> set (base64_encode env bs))
      \<and> (\<forall>bs. bs \<noteq> [] \<longrightarrow> base64_encode env bs \<noteq> [])
      \<and> (\<forall>bs. base64_decode env (base64_encode env bs) = bs))"

text \<open>
  \<open>String.prototype.isWellFormed\<close>: every high surrogate is followed by a low one and
  every low surrogate follows a high one. \<open>String.prototype.toWellFormed\<close>: the string
  with each surrogate that stands alone replaced by U+FFFD. A scalar value is a code point
  that is not a surrogate.
\<close>

fun isWellFormed :: "code_unit list \<Rightarrow> bool" where
  "isWellFormed [] = True"
| "isWellFormed [u] = (\<not> is_surrogate (unat u))"
| "isWellFormed (u # v # us) =
     (if is_high (unat u) then is_low (unat v) \<and> isWellFormed us
      else \<not> is_low (unat u) \<and> isWellFormed (v # us))"

definition toWellFormed :: "code_unit list \<Rightarrow> code_unit list" where
  "toWellFormed s = concat (map code_units (code_points s))"

definition scalar :: "nat \<Rightarrow> bool" where
  "scalar cp = (cp < 1114112 \<and> \<not> is_surrogate cp)"

text \<open>The specification's batching: a list cut, in order, into pieces of \<open>n\<close> elements,
  the last piece holding what is left.\<close>

function batches :: "nat \<Rightarrow> 'a list \<Rightarrow> 'a list list" where
  "batches n xs = (if n = 0 \<or> xs = [] then [] else take n xs # batches n (drop n xs))"
  by pat_completeness auto
termination
  by (relation "measure (\<lambda>(n, xs). length xs)") auto

declare batches.simps [simp del]

text \<open>
  The words of the extractor's contract. A hexadecimal character is a digit or one of the
  letters a to f in either case; a run of \<open>n\<close> of them is a string of that length made of
  them. The dashed UUID shape is five runs of 8, 4, 4, 4 and 12, joined by dashes. A
  Notion link holds the host text \<open>notion.so/\<close>, then at most one workspace segment
  (characters other than a slash, then a slash), then any number of slug segments
  (characters other than a dash, then a dash), then a run of 32; with \<open>ci\<close> the host text
  is compared without regard to case. A bare run is a run of 32 that the end of the
  string or a question mark follows at once.
\<close>

definition is_hex :: "char \<Rightarrow> bool" where
  "is_hex c =
     (let n = (of_char c :: nat)
      in (48 \<le> n \<and> n \<le> 57) \<or> (97 \<le> n \<and> n \<le> 102) \<or> (65 \<le> n \<and> n \<le> 70))"

definition hex_run :: "nat \<Rightarrow> string \<Rightarrow> bool" where
  "hex_run n s = (length s = n \<and> list_all is_hex s)"

definition dashed_uuid :: "string \<Rightarrow> bool" where
  "dashed_uuid s =
     (\<exists>a b c d e. s = a @ ''-'' @ b @ ''-'' @ c @ ''-'' @ d @ ''-'' @ e
        \<and> hex_run 8 a \<and> hex_run 4 b \<and> hex_run 4 c \<and> hex_run 4 d \<and> hex_run 12 e)"

definition workspace_segment :: "string \<Rightarrow> bool" where
  "workspace_segment g = (\<exists>x. g = x @ ''/'' \<and> x \<noteq> [] \<and> CHR ''/'' \<notin> set x)"

definition slug_segment :: "string \<Rightarrow> bool" where
  "slug_segment g = (\<exists>y. g = y @ ''-'' \<and> y \<noteq> [] \<and> CHR ''-'' \<notin> set y)"

definition notion_url :: "bool \<Rightarrow> string \<Rightarrow> string \<Rightarrow> bool" where
  "notion_url ci s r =
     (\<exists>pre host ws slugs post.
        s = pre @ host @ ws @ concat slugs @ r @ post
        \<and> (if ci then toLowerCase host = ''notion.so/'' else host = ''notion.so/'')
        \<and> (ws = [] \<or> workspace_segment ws)
        \<and> list_all slug_segment slugs
        \<and> hex_run 32 r)"

definition bare_run :: "string \<Rightarrow> string \<Rightarrow> bool" where
  "bare_run s r =
     (\<exists>pre post. s = pre @ r @ post \<and> hex_run 32 r \<and> (post = [] \<or> hd post = CHR ''?''))"

text \<open>The rules in their order of precedence, as a relation between the text the rules
  are applied to and the result: the first rule that applies decides.\<close>

definition extract_rules :: "bool \<Rightarrow> string \<Rightarrow> string option \<Rightarrow> bool" where
  "extract_rules ci t res =
     (if hex_run 32 t then res = Some t
      else if dashed_uuid t then res = Some (filter (\<lambda>c. c \<noteq> CHR ''-'') t)
      else if \<exists>r. notion_url ci t r then \<exists>r. notion_url ci t r \<and> res = Some r
      else if \<exists>r. bare_run t r then \<exists>r. bare_run t r \<and> res = Some r
      else res = None)"

text \<open>The characters of a literal whose match under the \<open>i\<close> flag is decided by the
  lower case of the input character: the small ASCII letters, and the characters below
  the capital letters (digits and punctuation).\<close>

definition lower_lit_char :: "char \<Rightarrow> bool" where
  "lower_lit_char a =
     ((97 \<le> (of_char a :: nat) \<and> (of_char a :: nat) \<le> 122) \<or> (of_char a :: nat) < 65)"

text \<open>What a pattern consumes: \<open>recognises ic w r A\<close> says that from every state the
  matcher's results for \<open>r\<close> are the states reached by consuming a prefix \<open>u\<close> of the rest
  with \<open>A u s'\<close>, where \<open>s'\<close> is what remains, the capture unchanged.\<close>

definition recognises :: "bool \<Rightarrow> string \<Rightarrow> re \<Rightarrow> (string \<Rightarrow> string \<Rightarrow> bool) \<Rightarrow> bool" where
  "recognises ic w r A =
     (\<forall>s c. set (ms ic w r (s, c)) = {(s', c) | s'. \<exists>u. s = u @ s' \<and> A u s'})"

subsection \<open>Example values\<close>

text \<open>
  An environment that obeys the laws of the library: its digest is 32 zero bytes, its
  cipher puts the initialization vector before the plaintext, and its text codec writes a
  byte as two letters from A to P. A secret, an initialization vector, the store that
  \<open>setApiKey\<close> writes for them, a client that accepts every request, and sample records.
\<close>

definition letter :: "nat \<Rightarrow> char" where
  "letter n = char_of (65 + n)"

definition letter_value :: "char \<Rightarrow> nat" where
  "letter_value c = of_char c - 65"

definition letters_encode :: "byte list \<Rightarrow> string" where
  "letters_encode bs = concat (map (\<lambda>b. [letter (unat b div 16), letter (unat b mod 16)]) bs)"

fun letters_decode :: "string \<Rightarrow> byte list" where
  "letters_decode (a # b # cs) = of_nat (letter_value a * 16 + letter_value b) # letters_decode cs"
| "letters_decode cs = []"

definition example_env :: crypto_env where
  "example_env =
     \<lparr>SECRET_KEY = None,
      sha256 = (\<lambda>m. replicate 32 0),
      aes_256_cbc_encrypt = (\<lambda>key iv m. iv @ m),
      aes_256_cbc_decrypt =
        (\<lambda>key iv c. if take (length iv) c = iv then Inr (drop (length iv) c)
                     else Inl ''bad decrypt''),
      base64_encode = letters_encode,
      base64_decode = letters_decode,
      utf8_replacement = (\<lambda>bs. [65533])\<rparr>"

definition example_secret :: "code_unit list" where
  "example_secret = js_string ''secret_abc''"

definition example_iv :: "byte list" where
  "example_iv = map of_nat [0..<16]"

definition example_store :: data where
  "example_store = run_store [SetApiKey example_env example_iv (Some example_secret)]"

definition example_client :: "nat client" where
  "example_client =
     \<lparr>pages_create = (\<lambda>parent title bs. Inr (''new-page'', ''https://www.notion.so/new-page'')),
      blocks_children_append = (\<lambda>block_id bs. Inr ())\<rparr>"

definition example_page :: "string \<Rightarrow> bool \<Rightarrow> page" where
  "example_page i b =
     \<lparr>p_id = i, p_name = ''Notes'', p_pageId = ''a1b2c3d4e5f6a1b2c3d4e5f6a1b2c3d4'',
      p_url = None, p_isDefault = b, p_createdAt = ''2024-01-01T00:00:00.000Z'',
      p_updatedAt = None\<rparr>"

definition example_input :: "string \<Rightarrow> history_input" where
  "example_input title =
     \<lparr>r_title = title, r_pageConfigId = ''p1'', r_notionPageId = None, r_notionUrl = None,
      r_status = ''failed'', r_error = Some ''rate_limited''\<rparr>"

definition three_pages :: data where
  "three_pages =
     defaultData\<lparr>pages := [example_page ''a'' False, example_page ''b'' True,
                             example_page ''c'' False],
                   config := \<lparr>apiKey = None, defaultPageId = Some ''b''\<rparr>\<rparr>"

definition one_page :: data where
  "one_page =
     defaultData\<lparr>pages := [example_page ''a'' True],
                   config := \<lparr>apiKey = None, defaultPageId = Some ''a''\<rparr>\<rparr>"

definition full_history :: data where
  "full_history = run_history (replicate 100 (''n'', ''t'', example_input ''old''))"

definition titled_history :: data where
  "titled_history =
     run_history [(''1'', ''t1'', example_input ''ALPHABET''),
                  (''2'', ''t2'', example_input ''Alpha''),
                  (''3'', ''t3'', example_input ''beta'')]"

section \<open>Properties of the store\<close>

subsection \<open>Searching a list by index\<close>

lemma findIndex_Some:
  "findIndex P xs = Some k \<Longrightarrow> k < length xs \<and> P (xs ! k) \<and> (\<forall>j<k. \<not> P (xs ! j))"
proof (induction xs arbitrary: k)
  case Nil
  then show ?case by simp
next
  case (Cons x xs)
  show ?case
  proof (cases "P x")
    case True
    with Cons.prems show ?thesis by simp
  next
    case False
    with Cons.prems obtain k' where k': "findIndex P xs = Some k'" "k = Suc k'"
      by (auto split: option.splits)
    from Cons.IH[OF k'(1)] False k'(2) show ?thesis
      by (auto simp: nth_Cons less_Suc_eq_0_disj split: nat.splits)
  qed
qed

lemma remove_nth_none_satisfies:
  assumes "k < length ps" and "\<forall>j<length ps. j \<noteq> k \<longrightarrow> \<not> f (ps ! j)"
  shows "\<forall>p \<in> set (take k ps @ drop (Suc k) ps). \<not> f p"
proof
  fix p assume "p \<in> set (take k ps @ drop (Suc k) ps)"
  then consider "p \<in> set (take k ps)" | "p \<in> set (drop (Suc k) ps)" by auto
  then show "\<not> f p"
  proof cases
    case 1
    then obtain j where "j < k" "p = ps ! j"
      using assms(1) by (auto simp: in_set_conv_nth)
    with assms show ?thesis by auto
  next
    case 2
    then obtain j where "j < length ps - Suc k" "p = ps ! (Suc k + j)"
      using assms(1) by (auto simp: in_set_conv_nth)
    with assms show ?thesis by auto
  qed
qed

subsection \<open>The default page\<close>

text \<open>
  Claim C1 says that every non-empty page collection reached from the empty store by
  \<open>addPage\<close>, \<open>updatePage\<close> and \<open>deletePage\<close> has exactly one default page. The code
  breaks it: \<open>updatePage\<close> copies \<open>isDefault = false\<close> onto the page and promotes no other
  page. Adding one page, which becomes the default, and then updating it with
  \<open>isDefault = false\<close> leaves one page and no default, while \<open>config.defaultPageId\<close> still
  names that page and \<open>getDefaultPage\<close> finds none.
\<close>

theorem updatePage_clears_only_default:
  "length (pages (run_page_ops
      [AddPage ''p1'' ''t0'' \<lparr>i_name = ''Notes'', i_pageId = ''a1b2c3d4e5f6a1b2c3d4e5f6a1b2c3d4'',
                              i_url = None, i_isDefault = None\<rparr>,
       UpdatePage ''t1'' ''p1'' \<lparr>u_id = None, u_name = None, u_pageId = None, u_url = None,
                                   u_isDefault = Some False, u_createdAt = None,
                                   u_updatedAt = None\<rparr>])) = 1
   \<and> default_count (run_page_ops
      [AddPage ''p1'' ''t0'' \<lparr>i_name = ''Notes'', i_pageId = ''a1b2c3d4e5f6a1b2c3d4e5f6a1b2c3d4'',
                              i_url = None, i_isDefault = None\<rparr>,
       UpdatePage ''t1'' ''p1'' \<lparr>u_id = None, u_name = None, u_pageId = None, u_url = None,
                                   u_isDefault = Some False, u_createdAt = None,
                                   u_updatedAt = None\<rparr>]) = 0
   \<and> defaultPageId (config (run_page_ops
      [AddPage ''p1'' ''t0'' \<lparr>i_name = ''Notes'', i_pageId = ''a1b2c3d4e5f6a1b2c3d4e5f6a1b2c3d4'',
                              i_url = None, i_isDefault = None\<rparr>,
       UpdatePage ''t1'' ''p1'' \<lparr>u_id = None, u_name = None, u_pageId = None, u_url = None,
                                   u_isDefault = Some False, u_createdAt = None,
                                   u_updatedAt = None\<rparr>])) = Some ''p1''
   \<and> getDefaultPage (run_page_ops
      [AddPage ''p1'' ''t0'' \<lparr>i_name = ''Notes'', i_pageId = ''a1b2c3d4e5f6a1b2c3d4e5f6a1b2c3d4'',
                              i_url = None, i_isDefault = None\<rparr>,
       UpdatePage ''t1'' ''p1'' \<lparr>u_id = None, u_name = None, u_pageId = None, u_url = None,
                                   u_isDefault = Some False, u_createdAt = None,
                                   u_updatedAt = None\<rparr>]) = None"
  by (simp add: run_page_ops_def defaultData_def addPage_def updatePage_def assign_updates_def
      default_count_def getDefaultPage_def or_null_def Let_def)

text \<open>
  The other paths keep the default unique. \<open>addPage\<close> and \<open>deletePage\<close> turn a
  collection that is empty or has one default into one that is empty or has one default,
  and so does \<open>updatePage\<close> when the identifiers are distinct, the update does not
  carry \<open>isDefault = false\<close> and it carries no \<open>id\<close> other than the page's own. An \<open>id\<close>
  in the body renames the page before the other pages are compared with the old
  identifier, so that the renamed page loses the default it was just given.
\<close>

lemma count_without_nth:
  assumes "k < length ps"
  shows "length (filter P ps) =
           length (filter P (take k ps @ drop (Suc k) ps)) + (if P (ps ! k) then 1 else 0)"
proof -
  have "ps = take k ps @ ps ! k # drop (Suc k) ps"
    using assms by (rule id_take_nth_drop)
  then have "filter P ps = filter P (take k ps @ ps ! k # drop (Suc k) ps)"
    by simp
  then show ?thesis by simp
qed

lemma addPage_one_default:
  assumes "pages d = [] \<or> default_count d = 1"
  shows "default_count (snd (addPage n t pg d)) = 1"
proof -
  have z: "filter p_isDefault (map (\<lambda>p. p\<lparr>p_isDefault := False\<rparr>) ps) = []" for ps :: "page list"
    by (induction ps) auto
  show ?thesis
    using assms by (auto simp: addPage_def default_count_def Let_def z)
qed

lemma deletePage_one_default:
  assumes one: "default_count d = 1" and rest: "pages (snd (deletePage i d)) \<noteq> []"
  shows "default_count (snd (deletePage i d)) = 1"
proof (cases "findIndex (\<lambda>p. p_id p = i) (pages d)")
  case None
  then show ?thesis using one by (simp add: deletePage_def)
next
  case (Some k)
  define ps where "ps = take k (pages d) @ drop (Suc k) (pages d)"
  from findIndex_Some[OF Some] have k: "k < length (pages d)" by simp
  note c = count_without_nth[OF k, of p_isDefault, folded ps_def]
  show ?thesis
  proof (cases "p_isDefault (pages d ! k)")
    case True
    with c one have z: "filter p_isDefault ps = []"
      by (simp add: default_count_def)
    from rest Some True have ne: "ps \<noteq> []"
      by (auto simp: deletePage_def Let_def ps_def[symmetric] split: if_splits)
    then obtain x xs where xs: "ps = x # xs" by (cases ps) auto
    with z have "filter p_isDefault xs = []" by (simp split: if_splits)
    then show ?thesis
      using Some True xs
      by (simp add: deletePage_def Let_def ps_def[symmetric] default_count_def)
  next
    case False
    with c one have "length (filter p_isDefault ps) = 1"
      by (simp add: default_count_def)
    moreover from this have "ps \<noteq> []" by auto
    ultimately show ?thesis
      using Some False
      by (simp add: deletePage_def Let_def ps_def[symmetric] default_count_def)
  qed
qed


lemma assign_updates_id:
  "p_id (assign_updates p u now) = (case u_id u of None \<Rightarrow> p_id p | Some x \<Rightarrow> x)"
  by (simp add: assign_updates_def Let_def split: option.splits)

lemma assign_updates_isDefault:
  "p_isDefault (assign_updates p u now) = (case u_isDefault u of None \<Rightarrow> p_isDefault p | Some b \<Rightarrow> b)"
  by (simp add: assign_updates_def Let_def split: option.splits)

lemma updatePage_one_default:
  assumes one: "default_count d = 1"
    and ids: "distinct (map p_id (pages d))"
    and u: "u_isDefault u \<noteq> Some False"
    and uid: "u_id u = None \<or> u_id u = Some i"
  shows "default_count (snd (updatePage now i u d)) = 1"
proof (cases "findIndex (\<lambda>p. p_id p = i) (pages d)")
  case None
  then show ?thesis using one by (simp add: updatePage_def)
next
  case idx: (Some k)
  define ps where "ps = pages d"
  define pg where "pg = assign_updates (ps ! k) u now"
  from findIndex_Some[OF idx] have k: "k < length ps" and idk: "p_id (ps ! k) = i"
    by (simp_all add: ps_def)
  have upd: "ps[k := pg] = take k ps @ pg # drop (Suc k) ps"
    using k by (rule upd_conv_take_nth_drop)
  show ?thesis
  proof (cases "u_isDefault u")
    case None
    then have same: "p_isDefault pg = p_isDefault (ps ! k)"
      by (simp add: pg_def assign_updates_isDefault)
    have "length (filter p_isDefault (ps[k := pg])) = length (filter p_isDefault ps)"
      unfolding upd count_without_nth[OF k, of p_isDefault] using same by simp
    then show ?thesis
      using idx None one
      by (simp add: updatePage_def Let_def default_count_def ps_def[symmetric] pg_def[symmetric])
  next
    case (Some b)
    with u have b: "b = True" by simp
    have pgd: "p_isDefault pg" and pgi: "p_id pg = i"
      using Some b idk uid by (auto simp add: pg_def assign_updates_isDefault assign_updates_id)
    have "distinct (map p_id ps)" using ids by (simp add: ps_def)
    then have "\<forall>j<length ps. j \<noteq> k \<longrightarrow> \<not> p_id (ps ! j) = i"
      using k idk by (metis distinct_conv_nth length_map nth_map)
    from remove_nth_none_satisfies[OF k this]
    have other: "p_id p \<noteq> i" if "p \<in> set (take k ps) \<union> set (drop (Suc k) ps)" for p
      using that by auto
    have off: "filter p_isDefault (map (\<lambda>p. if p_id p \<noteq> i then p\<lparr>p_isDefault := False\<rparr> else p) qs) = []"
      if "set qs \<subseteq> set (take k ps) \<union> set (drop (Suc k) ps)" for qs
      using that other by (induction qs) auto
    have "filter p_isDefault
            (map (\<lambda>p. if p_id p \<noteq> i then p\<lparr>p_isDefault := False\<rparr> else p) (ps[k := pg])) = [pg]"
      unfolding upd using off[of "take k ps"] off[of "drop (Suc k) ps"] pgd pgi by simp
    then show ?thesis
      using idx Some b
      by (simp add: updatePage_def Let_def default_count_def ps_def[symmetric] pg_def[symmetric])
  qed
qed

lemma updatePage_renamed_loses_default:
  "default_count (run_page_ops
      [AddPage ''p1'' ''t0'' \<lparr>i_name = ''Notes'', i_pageId = ''a1b2c3d4e5f6a1b2c3d4e5f6a1b2c3d4'',
                              i_url = None, i_isDefault = None\<rparr>,
       UpdatePage ''t1'' ''p1'' \<lparr>u_id = Some ''p2'', u_name = None, u_pageId = None,
                                   u_url = None, u_isDefault = Some True, u_createdAt = None,
                                   u_updatedAt = None\<rparr>]) = 0"
  by (simp add: run_page_ops_def defaultData_def addPage_def updatePage_def assign_updates_def
      default_count_def or_null_def Let_def)

lemma deletePage_default_reassigned:
  assumes idx: "findIndex (\<lambda>p. p_id p = i) (pages d) = Some k"
    and dflt: "p_isDefault (pages d ! k)"
    and uniq: "\<forall>j<length (pages d). j \<noteq> k \<longrightarrow> \<not> p_isDefault (pages d ! j)"
    and three: "3 \<le> length (pages d)"
  shows "fst (deletePage i d)
     \<and> pages (snd (deletePage i d)) =
         (let rest = take k (pages d) @ drop (Suc k) (pages d)
          in (rest ! 0)\<lparr>p_isDefault := True\<rparr> # tl rest)
     \<and> filter p_isDefault (pages (snd (deletePage i d))) = [pages (snd (deletePage i d)) ! 0]
     \<and> defaultPageId (config (snd (deletePage i d))) = Some (p_id (pages (snd (deletePage i d)) ! 0))"
proof -
  define rest where "rest = take k (pages d) @ drop (Suc k) (pages d)"
  from findIndex_Some[OF idx] have k: "k < length (pages d)" by simp
  have len: "length rest = length (pages d) - 1"
    using k by (simp add: rest_def)
  then obtain x xs where rest: "rest = x # xs"
    using three by (cases rest) auto
  have nodef: "\<forall>p \<in> set rest. \<not> p_isDefault p"
    unfolding rest_def by (rule remove_nth_none_satisfies[OF k uniq])
  have del: "deletePage i d =
      (True, d\<lparr>pages := x\<lparr>p_isDefault := True\<rparr> # xs,
                config := (config d)\<lparr>defaultPageId := Some (p_id x)\<rparr>\<rparr>)"
    using idx dflt rest by (simp add: deletePage_def Let_def rest_def[symmetric])
  have f: "filter p_isDefault xs = []"
    using nodef rest by (auto simp: filter_empty_conv)
  show ?thesis
    unfolding del rest_def[symmetric] using rest f by (simp add: Let_def)
qed

lemma deletePage_last_page:
  assumes "pages d = [p]" and "p_id p = i"
  shows "fst (deletePage i d) \<and> pages (snd (deletePage i d)) = []
         \<and> defaultPageId (config (snd (deletePage i d))) = None"
  using assms by (simp add: deletePage_def Let_def)

text \<open>
  Claim C4. Let the page found under the given id be the default, the only one, and let at
  least two other pages exist. Then \<open>deletePage\<close> succeeds, the collection is the old one
  without that page and with its first page marked default, that first page is the only
  default, and \<open>config.defaultPageId\<close> is its id. When the page is the only page of the
  collection, the collection becomes empty and \<open>config.defaultPageId\<close> becomes null.
\<close>

theorem deletePage_default_page:
  "(findIndex (\<lambda>p. p_id p = i) (pages d) = Some k \<and> p_isDefault (pages d ! k)
      \<and> (\<forall>j<length (pages d). j \<noteq> k \<longrightarrow> \<not> p_isDefault (pages d ! j))
      \<and> 3 \<le> length (pages d)
    \<longrightarrow> fst (deletePage i d)
        \<and> pages (snd (deletePage i d)) =
            (let rest = take k (pages d) @ drop (Suc k) (pages d)
             in (rest ! 0)\<lparr>p_isDefault := True\<rparr> # tl rest)
        \<and> filter p_isDefault (pages (snd (deletePage i d))) = [pages (snd (deletePage i d)) ! 0]
        \<and> defaultPageId (config (snd (deletePage i d)))
            = Some (p_id (pages (snd (deletePage i d)) ! 0)))
   \<and> (pages d = [p] \<and> p_id p = i
    \<longrightarrow> fst (deletePage i d) \<and> pages (snd (deletePage i d)) = []
        \<and> defaultPageId (config (snd (deletePage i d))) = None)"
proof (intro conjI impI)
  assume h: "findIndex (\<lambda>p. p_id p = i) (pages d) = Some k \<and> p_isDefault (pages d ! k)
      \<and> (\<forall>j<length (pages d). j \<noteq> k \<longrightarrow> \<not> p_isDefault (pages d ! j))
      \<and> 3 \<le> length (pages d)"
  then have h1: "findIndex (\<lambda>p. p_id p = i) (pages d) = Some k"
    and h2: "p_isDefault (pages d ! k)"
    and h3: "\<forall>j<length (pages d). j \<noteq> k \<longrightarrow> \<not> p_isDefault (pages d ! j)"
    and h4: "3 \<le> length (pages d)"
    by blast+
  note r = deletePage_default_reassigned[OF h1 h2 h3 h4]
  from r show "fst (deletePage i d)" by (rule conjunct1)
  from r show "pages (snd (deletePage i d)) =
         (let rest = take k (pages d) @ drop (Suc k) (pages d)
          in (rest ! 0)\<lparr>p_isDefault := True\<rparr> # tl rest)"
    by (elim conjE)
  from r show "filter p_isDefault (pages (snd (deletePage i d))) = [pages (snd (deletePage i d)) ! 0]"
    by (elim conjE)
  from r show "defaultPageId (config (snd (deletePage i d)))
            = Some (p_id (pages (snd (deletePage i d)) ! 0))"
    by (elim conjE)
next
  assume h: "pages d = [p] \<and> p_id p = i"
  then have a: "pages d = [p]" and b: "p_id p = i"
    by (rule conjunct1, rule conjunct2)
  note r = deletePage_last_page[OF a b]
  from r show "fst (deletePage i d)" by (rule conjunct1)
  from r show "pages (snd (deletePage i d)) = []" by (elim conjE)
  from r show "defaultPageId (config (snd (deletePage i d))) = None" by (elim conjE)
qed

theorem deletePage_default_page_witness:
  "findIndex (\<lambda>p. p_id p = ''b'') (pages three_pages) = Some 1
   \<and> map p_isDefault (pages three_pages) = [False, True, False]
   \<and> pages (snd (deletePage ''b'' three_pages)) = [example_page ''a'' True, example_page ''c'' False]
   \<and> defaultPageId (config (snd (deletePage ''b'' three_pages))) = Some ''a''
   \<and> pages one_page = [example_page ''a'' True] \<and> p_id (example_page ''a'' True) = ''a''
   \<and> pages (snd (deletePage ''a'' one_page)) = []
   \<and> defaultPageId (config (snd (deletePage ''a'' one_page))) = None"
proof -
  have ps: "pages three_pages = [example_page ''a'' False, example_page ''b'' True,
                                 example_page ''c'' False]"
    by (simp add: three_pages_def)
  have h: "findIndex (\<lambda>p. p_id p = ''b'') (pages three_pages) = Some 1
      \<and> p_isDefault (pages three_pages ! 1)
      \<and> (\<forall>j<length (pages three_pages). j \<noteq> 1 \<longrightarrow> \<not> p_isDefault (pages three_pages ! j))
      \<and> 3 \<le> length (pages three_pages)"
    unfolding ps by (auto simp: example_page_def nth_Cons' less_Suc_eq numeral_3_eq_3)
  have g: "pages one_page = [example_page ''a'' True] \<and> p_id (example_page ''a'' True) = ''a''"
    by (simp add: one_page_def example_page_def)
  from deletePage_default_page[where i = "''b''" and d = three_pages and k = 1] h
  have a: "pages (snd (deletePage ''b'' three_pages)) =
             [example_page ''a'' True, example_page ''c'' False]
           \<and> defaultPageId (config (snd (deletePage ''b'' three_pages))) = Some ''a''"
    unfolding ps by (simp add: example_page_def)
  from deletePage_default_page[where i = "''a''" and d = one_page
                                 and p = "example_page ''a'' True"] g
  have b: "pages (snd (deletePage ''a'' one_page)) = []
           \<and> defaultPageId (config (snd (deletePage ''a'' one_page))) = None"
    by simp
  have m: "map p_isDefault (pages three_pages) = [False, True, False]"
    unfolding ps by (simp add: example_page_def)
  show ?thesis using h g a b m by simp
qed

subsection \<open>History\<close>

lemma addHistory_history:
  "history (snd (addHistory n t r d)) = take 100 (newRecord n t r # history d)"
  by (simp add: addHistory_def Let_def)

lemma run_history_snoc:
  "run_history (rs @ [(n, t, r)]) = snd (addHistory n t r (run_history rs))"
  by (simp add: run_history_def)

lemma take_100_Cons_take: "take 100 (x # take 100 ys) = take 100 (x # ys)"
  by (simp add: take_Cons')

lemma run_history_eq:
  "history (run_history rs) = take 100 (rev (map (\<lambda>(n, t, r). newRecord n t r) rs))"
proof (induction rs rule: rev_induct)
  case Nil
  show ?case by (simp add: run_history_def defaultData_def)
next
  case (snoc x rs)
  obtain n t r where x: "x = (n, t, r)" by (cases x) auto
  show ?case
    unfolding x run_history_snoc addHistory_history snoc.IH
    by (simp add: take_100_Cons_take)
qed

lemma slice0_length: "length (slice0 xs e) \<le> length xs"
  by (simp add: slice0_def nat_le_iff)

lemma getHistory_length: "length (getHistory limit search d) \<le> length (history d)"
proof -
  have "length (filter P (history d)) \<le> length (history d)" for P
    by simp
  then show ?thesis
    unfolding getHistory_def Let_def
    by (auto intro: order_trans[OF slice0_length])
qed

text \<open>
  Claim C5. After any run of \<open>addHistory\<close> calls from the empty store the history holds at
  most 100 records, and it is the appended records from the newest to the oldest, cut
  after 100. Appending to a history of 100 records puts the new record first and drops
  the last, oldest one; after any \<open>addHistory\<close> the history holds at most 100 records.
  \<open>getHistory\<close> on a store so reached returns at most 100 records, for every limit and
  search text.
\<close>

theorem history_capped:
  "length (history (run_history rs)) \<le> 100
   \<and> history (run_history rs) = take 100 (rev (map (\<lambda>(n, t, r). newRecord n t r) rs))
   \<and> (length (history d) = 100 \<longrightarrow>
        history (snd (addHistory n t r d)) = newRecord n t r # butlast (history d))
   \<and> length (history (snd (addHistory n t r d))) \<le> 100
   \<and> length (getHistory limit search (run_history rs)) \<le> 100"
proof -
  have a: "length (history (run_history rs)) \<le> 100"
    by (simp add: run_history_eq)
  have b: "history (snd (addHistory n t r d)) = newRecord n t r # butlast (history d)"
    if "length (history d) = 100"
    using that by (simp add: addHistory_history take_Cons' butlast_conv_take)
  have c: "length (getHistory limit search (run_history rs)) \<le> 100"
    using getHistory_length[of limit search "run_history rs"] a by linarith
  show ?thesis using a b c by (simp add: run_history_eq addHistory_history)
qed

theorem history_capped_witness:
  "length (history full_history) = 100
   \<and> history (snd (addHistory ''new'' ''now'' (example_input ''latest'') full_history))
       = newRecord ''new'' ''now'' (example_input ''latest'') # butlast (history full_history)
   \<and> length (history (snd (addHistory ''new'' ''now'' (example_input ''latest'') full_history)))
       = 100"
proof -
  have len: "length (history full_history) = 100"
    by (simp add: full_history_def run_history_eq)
  from history_capped[of "[]" full_history "''new''" "''now''" "example_input ''latest''"] len
  have "history (snd (addHistory ''new'' ''now'' (example_input ''latest'') full_history))
       = newRecord ''new'' ''now'' (example_input ''latest'') # butlast (history full_history)"
    by blast
  with len show ?thesis by simp
qed

subsection \<open>Searching the history\<close>

lemma take_length_eq_iff: "take (length t) s = t \<longleftrightarrow> (\<exists>post. s = t @ post)"
proof
  assume "take (length t) s = t"
  then have "s = t @ drop (length t) s"
    by (metis append_take_drop_id)
  then show "\<exists>post. s = t @ post" ..
next
  assume "\<exists>post. s = t @ post"
  then show "take (length t) s = t" by auto
qed

lemma includes_str_iff: "includes_str s t \<longleftrightarrow> (\<exists>pre post. s = pre @ t @ post)"
proof (induction s)
  case Nil
  show ?case by auto
next
  case (Cons c cs)
  show ?case
  proof
    assume "includes_str (c # cs) t"
    then consider "take (length t) (c # cs) = t" | "includes_str cs t" by auto
    then show "\<exists>pre post. c # cs = pre @ t @ post"
    proof cases
      case 1
      then obtain post where "c # cs = t @ post"
        using take_length_eq_iff by blast
      then have "c # cs = [] @ t @ post" by simp
      then show ?thesis by blast
    next
      case 2
      with Cons.IH obtain pre post where "cs = pre @ t @ post" by blast
      then have "c # cs = (c # pre) @ t @ post" by simp
      then show ?thesis by blast
    qed
  next
    assume "\<exists>pre post. c # cs = pre @ t @ post"
    then obtain pre post where e: "c # cs = pre @ t @ post" by blast
    show "includes_str (c # cs) t"
    proof (cases pre)
      case Nil
      with e have "take (length t) (c # cs) = t"
        using take_length_eq_iff[of t "c # cs"] by auto
      then show ?thesis by simp
    next
      case (Cons p pre')
      with e have "cs = pre' @ t @ post" by simp
      with Cons.IH have "includes_str cs t" by blast
      then show ?thesis by simp
    qed
  qed
qed

text \<open>
  Claim C7. For a search text that is not empty, \<open>getHistory\<close> returns the slice up to the
  limit of the records whose lower-cased title contains the lower-cased search text
  somewhere: the filter runs over the whole history and the limit is applied to what it
  keeps. For a limit that is not negative the result has \<open>limit\<close> records, or all the
  matching records when there are fewer.
\<close>

theorem getHistory_filters_before_limit:
  assumes "search \<noteq> []"
  shows "getHistory (Limit limit) (Some search) d =
           slice0 (filter (\<lambda>h. \<exists>pre post. toLowerCase (h_title h) = pre @ toLowerCase search @ post)
                          (history d)) limit
       \<and> (0 \<le> limit \<longrightarrow>
            length (getHistory (Limit limit) (Some search) d) =
              min (nat limit)
                  (length (filter (\<lambda>h. \<exists>pre post. toLowerCase (h_title h) = pre @ toLowerCase search @ post)
                                  (history d))))"
  using assms by (simp add: getHistory_def Let_def includes_str_iff slice0_def min.commute)

theorem getHistory_filters_before_limit_witness:
  "''alp'' \<noteq> [] \<and> (0::int) \<le> 1
   \<and> map h_title (history titled_history) = [''beta'', ''Alpha'', ''ALPHABET'']
   \<and> map h_title (getHistory (Limit 1) (Some ''alp'') titled_history) = [''Alpha'']
   \<and> length (getHistory (Limit 1) (Some ''alp'') titled_history) =
       min (nat 1)
           (length (filter (\<lambda>h. \<exists>pre post. toLowerCase (h_title h) = pre @ toLowerCase ''alp'' @ post)
                           (history titled_history)))"
proof -
  have a: "map h_title (history titled_history) = [''beta'', ''Alpha'', ''ALPHABET'']"
    by (simp add: titled_history_def run_history_eq newRecord_def example_input_def)
  have b: "map h_title (getHistory (Limit 1) (Some ''alp'') titled_history) = [''Alpha'']"
    by code_simp
  have c: "''alp'' \<noteq> []" by simp
  have e: "(0::int) \<le> 1" by simp
  have d: "length (getHistory (Limit 1) (Some ''alp'') titled_history) =
       min (nat 1)
           (length (filter (\<lambda>h. \<exists>pre post. toLowerCase (h_title h) = pre @ toLowerCase ''alp'' @ post)
                           (history titled_history)))"
    using getHistory_filters_before_limit[OF c, of 1 titled_history] e by blast
  show ?thesis by (intro conjI c e a b d)
qed

section \<open>Properties of the secret cipher\<close>

subsection \<open>UTF-8 read back\<close>

text \<open>
  Every code point of a string is a scalar value, and the decoder reads the bytes of a
  scalar value back as its code units. So decoding the UTF-8 of a string gives the
  string made well-formed, which is the string itself exactly when it is well-formed.
\<close>

lemma unat_byte: "n < 256 \<Longrightarrow> unat (of_nat n :: byte) = n"
  by (simp add: unat_of_nat)

lemma unat_unit: "n < 65536 \<Longrightarrow> unat (of_nat n :: code_unit) = n"
  by (simp add: unat_of_nat)

lemma unit_bound: "unat (u :: code_unit) < 65536"
  using unsigned_less[of u, where 'a = nat] by simp

lemma byte_bound: "unat (b :: byte) < 256"
  using unsigned_less[of b, where 'a = nat] by simp

lemma pair_scalar:
  fixes h l :: nat
  assumes "55296 \<le> h" "h \<le> 56319" "56320 \<le> l" "l \<le> 57343"
  shows "65536 + (h - 55296) * 1024 + (l - 56320) < 1114112"
    and "57343 < 65536 + (h - 55296) * 1024 + (l - 56320)"
  using assms by linarith+

lemma code_points_scalar: "\<forall>cp \<in> set (code_points s). scalar cp"
proof (induction s rule: code_points.induct)
  case 1
  show ?case by simp
next
  case (2 u)
  show ?case using unit_bound[of u] by (simp add: scalar_def is_surrogate_def)
next
  case (3 u v us)
  have "scalar (65536 + (unat u - 55296) * 1024 + (unat v - 56320))"
    if "is_high (unat u)" "is_low (unat v)"
    using that pair_scalar[of "unat u" "unat v"]
    by (simp add: scalar_def is_surrogate_def is_high_def is_low_def)
  moreover have "scalar (if is_surrogate (unat u) then 65533 else unat u)"
    using unit_bound[of u] by (simp add: scalar_def is_surrogate_def)
  ultimately show ?case using 3 by simp
qed

lemma decode_one_byte:
  assumes "cp < 128"
  shows "utf8_decode replace (utf8_bytes cp @ rest) = code_units cp @ utf8_decode replace rest"
  using assms by (simp add: utf8_bytes_def code_units_def unat_byte)

lemma two_byte_arith:
  fixes cp :: nat
  assumes "128 \<le> cp" "cp < 2048"
  shows "192 + cp div 64 < 256" "194 \<le> 192 + cp div 64" "192 + cp div 64 \<le> 223"
    "128 + cp mod 64 < 256" "128 + cp mod 64 \<le> 191"
    "(192 + cp div 64 - 192) * 64 + (128 + cp mod 64 - 128) = cp"
  using assms by simp_all

lemma decode_two_bytes:
  assumes "128 \<le> cp" "cp < 2048"
  shows "utf8_decode replace (utf8_bytes cp @ rest) = code_units cp @ utf8_decode replace rest"
proof -
  note a = two_byte_arith[OF assms]
  have b0: "unat (of_nat (192 + cp div 64) :: byte) = 192 + cp div 64"
    by (rule unat_byte[OF a(1)])
  have b1: "unat (of_nat (128 + cp mod 64) :: byte) = 128 + cp mod 64"
    by (rule unat_byte[OF a(4)])
  have u: "utf8_bytes cp = [of_nat (192 + cp div 64), of_nat (128 + cp mod 64)]"
    using assms by (simp add: utf8_bytes_def)
  have c: "code_units cp = [of_nat cp]"
    using assms by (simp add: code_units_def)
  show ?thesis
    unfolding u c using a by (simp add: b0 b1 continuation_def del: of_nat_add)
qed

lemma split_three:
  fixes cp :: nat
  shows "cp div 4096 * 4096 + cp div 64 mod 64 * 64 + cp mod 64 = cp"
proof -
  define q where "q = cp div 64"
  define r where "r = cp mod 64"
  define d where "d = q div 64"
  define m where "m = q mod 64"
  have a: "cp div 4096 = d"
    by (simp add: d_def q_def div_mult2_eq[symmetric])
  have b: "q = d * 64 + m" by (simp add: d_def m_def)
  have c: "cp = q * 64 + r" by (simp add: q_def r_def)
  have "d * 4096 + m * 64 + r = cp"
    unfolding c b by simp
  then show ?thesis
    unfolding a q_def[symmetric] r_def[symmetric] m_def[symmetric] .
qed

lemma split_four:
  fixes cp :: nat
  shows "cp div 262144 * 262144 + cp div 4096 mod 64 * 4096 + cp div 64 mod 64 * 64 + cp mod 64 = cp"
proof -
  define q where "q = cp div 64"
  define r where "r = cp mod 64"
  define d where "d = q div 4096"
  define m where "m = q div 64 mod 64"
  define n where "n = q mod 64"
  have a: "cp div 262144 = d" "cp div 4096 = q div 64"
    by (simp_all add: d_def q_def div_mult2_eq[symmetric])
  have b: "d * 4096 + m * 64 + n = q"
    unfolding d_def m_def n_def by (rule split_three)
  have c: "cp = q * 64 + r" by (simp add: q_def r_def)
  have "d * 262144 + m * 4096 + n * 64 + r = cp"
    unfolding c b[symmetric] by simp
  then show ?thesis
    unfolding a q_def[symmetric] r_def[symmetric] m_def[symmetric] n_def[symmetric] .
qed

lemma three_byte_arith:
  fixes cp :: nat
  assumes "2048 \<le> cp" "cp < 65536"
  shows "224 + cp div 4096 < 256" "224 \<le> 224 + cp div 4096" "224 + cp div 4096 \<le> 239"
    "128 + cp div 64 mod 64 < 256" "128 + cp div 64 mod 64 \<le> 191"
    "128 + cp mod 64 < 256" "128 + cp mod 64 \<le> 191"
    "(224 + cp div 4096 - 224) * 4096 + (128 + cp div 64 mod 64 - 128) * 64
       + (128 + cp mod 64 - 128) = cp"
  using assms split_three[of cp] by simp_all

lemma decode_three_bytes:
  assumes "2048 \<le> cp" "cp < 65536" "\<not> is_surrogate cp"
  shows "utf8_decode replace (utf8_bytes cp @ rest) = code_units cp @ utf8_decode replace rest"
proof -
  note a = three_byte_arith[OF assms(1,2)]
  have b0: "unat (of_nat (224 + cp div 4096) :: byte) = 224 + cp div 4096"
    by (rule unat_byte[OF a(1)])
  have b1: "unat (of_nat (128 + cp div 64 mod 64) :: byte) = 128 + cp div 64 mod 64"
    by (rule unat_byte[OF a(4)])
  have b2: "unat (of_nat (128 + cp mod 64) :: byte) = 128 + cp mod 64"
    by (rule unat_byte[OF a(6)])
  have u: "utf8_bytes cp = [of_nat (224 + cp div 4096), of_nat (128 + cp div 64 mod 64),
                            of_nat (128 + cp mod 64)]"
    using assms by (simp add: utf8_bytes_def)
  have c: "code_units cp = [of_nat cp]"
    using assms by (simp add: code_units_def)
  show ?thesis
    unfolding u c using a(2,3,5,7) assms
    by (simp add: b0 b1 b2 split_three continuation_def del: of_nat_add)
qed

lemma four_byte_arith:
  fixes cp :: nat
  assumes "65536 \<le> cp" "cp < 1114112"
  shows "240 + cp div 262144 < 256" "240 \<le> 240 + cp div 262144" "240 + cp div 262144 \<le> 244"
    "128 + cp div 4096 mod 64 < 256" "128 + cp div 4096 mod 64 \<le> 191"
    "128 + cp div 64 mod 64 < 256" "128 + cp div 64 mod 64 \<le> 191"
    "128 + cp mod 64 < 256" "128 + cp mod 64 \<le> 191"
    "(240 + cp div 262144 - 240) * 262144 + (128 + cp div 4096 mod 64 - 128) * 4096
       + (128 + cp div 64 mod 64 - 128) * 64 + (128 + cp mod 64 - 128) = cp"
  using assms split_four[of cp] by simp_all

lemma decode_four_bytes:
  assumes "65536 \<le> cp" "cp < 1114112"
  shows "utf8_decode replace (utf8_bytes cp @ rest) = code_units cp @ utf8_decode replace rest"
proof -
  note a = four_byte_arith[OF assms(1,2)]
  have b0: "unat (of_nat (240 + cp div 262144) :: byte) = 240 + cp div 262144"
    by (rule unat_byte[OF a(1)])
  have b1: "unat (of_nat (128 + cp div 4096 mod 64) :: byte) = 128 + cp div 4096 mod 64"
    by (rule unat_byte[OF a(4)])
  have b2: "unat (of_nat (128 + cp div 64 mod 64) :: byte) = 128 + cp div 64 mod 64"
    by (rule unat_byte[OF a(6)])
  have b3: "unat (of_nat (128 + cp mod 64) :: byte) = 128 + cp mod 64"
    by (rule unat_byte[OF a(8)])
  have u: "utf8_bytes cp = [of_nat (240 + cp div 262144), of_nat (128 + cp div 4096 mod 64),
                            of_nat (128 + cp div 64 mod 64), of_nat (128 + cp mod 64)]"
    using assms by (simp add: utf8_bytes_def)
  show ?thesis
    unfolding u using a(2,3,5,7,9) assms
    by (simp add: b0 b1 b2 b3 split_four continuation_def del: of_nat_add)
qed

lemma decode_scalar:
  assumes "scalar cp"
  shows "utf8_decode replace (utf8_bytes cp @ rest) = code_units cp @ utf8_decode replace rest"
proof -
  consider "cp < 128" | "128 \<le> cp" "cp < 2048" | "2048 \<le> cp" "cp < 65536"
    | "65536 \<le> cp" "cp < 1114112"
    using assms unfolding scalar_def by linarith
  then show ?thesis
  proof cases
    case 1 then show ?thesis by (rule decode_one_byte)
  next
    case 2 then show ?thesis by (rule decode_two_bytes)
  next
    case 3 then show ?thesis using assms by (intro decode_three_bytes) (simp_all add: scalar_def)
  next
    case 4 then show ?thesis by (rule decode_four_bytes)
  qed
qed

lemma decode_scalars:
  "\<forall>cp \<in> set cps. scalar cp \<Longrightarrow>
     utf8_decode replace (concat (map utf8_bytes cps)) = concat (map code_units cps)"
  by (induction cps) (simp_all add: decode_scalar)

lemma utf8_decode_encode: "utf8_decode replace (utf8_encode s) = toWellFormed s"
  unfolding utf8_encode_def toWellFormed_def
  by (rule decode_scalars[OF code_points_scalar])

lemma unit_of_unat: "of_nat (unat u) = (u :: code_unit)"
  by simp

lemma surrogate_halves: "is_surrogate n = (is_high n \<or> is_low n)"
  unfolding is_surrogate_def is_high_def is_low_def by linarith

lemma code_units_pair:
  assumes "is_high (unat u)" "is_low (unat v)"
  shows "code_units (65536 + (unat u - 55296) * 1024 + (unat v - 56320)) = [u, v]"
proof -
  define h where "h = unat u - 55296"
  define l where "l = unat v - 56320"
  have l: "l < 1024" using assms(2) unfolding l_def is_low_def by linarith
  have hu: "55296 + h = unat u" using assms(1) unfolding h_def is_high_def by linarith
  have lv: "56320 + l = unat v" using assms(2) unfolding l_def is_low_def by linarith
  have "code_units (65536 + h * 1024 + l) = [of_nat (55296 + h), of_nat (56320 + l)]"
    using l by (simp add: code_units_def del: of_nat_add)
  then have "code_units (65536 + h * 1024 + l) = [u, v]"
    unfolding hu lv unit_of_unat .
  then show ?thesis
    unfolding h_def l_def .
qed

lemma code_units_single:
  "code_units (if is_surrogate (unat u) then 65533 else unat u)
     = [if is_surrogate (unat u) then 65533 else u]"
  using unit_bound[of u] by (simp add: code_units_def)

lemma replacement_not_surrogate: "\<not> is_surrogate (unat (65533 :: code_unit))"
  by (simp add: is_surrogate_def)

lemma toWellFormed_simps:
  "toWellFormed [] = []"
  "toWellFormed [u] = [if is_surrogate (unat u) then 65533 else u]"
  "toWellFormed (u # v # us) =
     (if is_high (unat u) \<and> is_low (unat v) then u # v # toWellFormed us
      else (if is_surrogate (unat u) then 65533 else u) # toWellFormed (v # us))"
  unfolding toWellFormed_def
  by (simp_all add: code_units_pair code_units_single del: code_points.simps(2))
     (simp_all add: code_units_def unit_bound)

lemma toWellFormed_length: "length (toWellFormed s) = length s"
  by (induction s rule: code_points.induct) (simp_all add: toWellFormed_simps)

lemma isWellFormed_iff: "isWellFormed s = (toWellFormed s = s)"
proof (induction s rule: code_points.induct)
  case 1
  show ?case by (simp add: toWellFormed_simps)
next
  case (2 u)
  show ?case
    using replacement_not_surrogate by (auto simp: toWellFormed_simps)
next
  case (3 u v us)
  show ?case
  proof (cases "is_high (unat u) \<and> is_low (unat v)")
    case True
    then show ?thesis using 3(1) by (simp add: toWellFormed_simps)
  next
    case False
    have "isWellFormed (u # v # us) = (\<not> is_surrogate (unat u) \<and> isWellFormed (v # us))"
      using False by (auto simp: surrogate_halves)
    also have "\<dots> = (\<not> is_surrogate (unat u) \<and> toWellFormed (v # us) = v # us)"
      using 3(2)[OF False] by simp
    also have "\<dots> = (toWellFormed (u # v # us) = u # v # us)"
      using False replacement_not_surrogate
      by (auto simp: toWellFormed_simps(3) simp del: isWellFormed.simps)
    finally show ?thesis .
  qed
qed

lemma utf8_encode_lone_surrogate:
  "utf8_encode [0xD800] = [0xEF, 0xBF, 0xBD] \<and> utf8_encode [0xFFFD] = [0xEF, 0xBF, 0xBD]"
  by (simp add: utf8_encode_def utf8_bytes_def is_surrogate_def)


subsection \<open>Tokens\<close>

lemma split_no_sep: "sep \<notin> set t \<Longrightarrow> split sep t = [t]"
  by (induction t) auto

lemma split_nonempty: "split sep t \<noteq> []"
  by (induction t) (auto split: list.splits)

lemma split_append_sep:
  "sep \<notin> set a \<Longrightarrow> split sep (a @ sep # b) = a # split sep b"
  by (induction a) auto

lemma split_hd_empty: "b = [] \<or> hd b = sep \<Longrightarrow> hd (split sep b) = []"
  by (cases b) auto

lemma library_lawsD:
  assumes "library_laws env"
  shows "length (sha256 env m) = 32"
    and "length key = 32 \<Longrightarrow> length iv = 16 \<Longrightarrow> aes_256_cbc_encrypt env key iv p \<noteq> []"
    and "length key = 32 \<Longrightarrow> length iv = 16 \<Longrightarrow>
           aes_256_cbc_decrypt env key iv (aes_256_cbc_encrypt env key iv p) = Inr p"
    and "CHR '':'' \<notin> set (base64_encode env bs)"
    and "bs \<noteq> [] \<Longrightarrow> base64_encode env bs \<noteq> []"
    and "base64_decode env (base64_encode env bs) = bs"
  using assms unfolding library_laws_def by blast+

lemma getSecretKey_length: "library_laws env \<Longrightarrow> length (getSecretKey env) = 32"
  by (simp add: getSecretKey_def library_lawsD(1))

lemma encrypt_token:
  assumes laws: "library_laws env" and iv: "length iv = IV_LENGTH" and x: "x \<noteq> []"
  shows "encrypt env iv (Some x) =
           Inr (Some (base64_encode env iv @ CHR '':'' #
                 base64_encode env (aes_256_cbc_encrypt env (getSecretKey env) iv (utf8_encode x))))"
  using x iv getSecretKey_length[OF laws]
  by (simp add: encrypt_def or_null_def createCipheriv_def IV_LENGTH_def Let_def)

lemma decrypt_token:
  assumes laws: "library_laws env" and iv: "length iv = IV_LENGTH"
  shows "decrypt env (Some (base64_encode env iv @ CHR '':'' #
            base64_encode env (aes_256_cbc_encrypt env (getSecretKey env) iv p)))
         = Inr (Some (utf8_decode (utf8_replacement env) p))"
proof -
  define key where "key = getSecretKey env"
  define c where "c = aes_256_cbc_encrypt env key iv p"
  define ivs where "ivs = base64_encode env iv"
  define cs where "cs = base64_encode env c"
  have k: "length key = 32" unfolding key_def by (rule getSecretKey_length[OF laws])
  have i: "length iv = 16" using iv by (simp add: IV_LENGTH_def)
  have c: "c \<noteq> []" unfolding c_def by (rule library_lawsD(2)[OF laws k i])
  have ivne: "iv \<noteq> []" using i by auto
  have facts: "ivs \<noteq> []" "CHR '':'' \<notin> set ivs" "cs \<noteq> []" "CHR '':'' \<notin> set cs"
    "base64_decode env ivs = iv" "base64_decode env cs = c"
    unfolding ivs_def cs_def
    using library_lawsD(4,5,6)[OF laws] c ivne by simp_all
  have dec: "aes_256_cbc_decrypt env key iv c = Inr p"
    unfolding c_def by (rule library_lawsD(3)[OF laws k i])
  have parts: "split CHR '':'' (ivs @ CHR '':'' # cs) = [ivs, cs]"
    using facts(2,4) by (simp add: split_append_sep split_no_sep)
  have "decrypt env (Some (ivs @ CHR '':'' # cs)) = Inr (Some (utf8_decode (utf8_replacement env) p))"
    using facts k i dec
    by (simp add: decrypt_def or_null_def element_def parts Let_def key_def[symmetric]
        createDecipheriv_def)
  then show ?thesis
    unfolding ivs_def cs_def c_def key_def .
qed

lemma decrypt_encrypt_toWellFormed:
  assumes laws: "library_laws env" and iv: "length iv = IV_LENGTH" and x: "x \<noteq> []"
  shows "decrypt_encrypt env iv (Some x) = Inr (Some (toWellFormed x))"
  unfolding decrypt_encrypt_def encrypt_token[OF laws iv x]
  by (simp add: decrypt_token[OF laws iv] utf8_decode_encode)

lemma encrypt_same_bytes:
  "utf8_encode x = utf8_encode y \<Longrightarrow> x \<noteq> [] \<Longrightarrow> y \<noteq> [] \<Longrightarrow>
     encrypt env iv (Some x) = encrypt env iv (Some y)"
  unfolding encrypt_def or_null_def Let_def
  by (cases "createCipheriv env (getSecretKey env) iv") simp_all

subsection \<open>The example environment\<close>

lemma letter_value_letter: "n < 16 \<Longrightarrow> letter_value (letter n) = n"
  by (simp add: letter_value_def letter_def)

lemma letter_not_colon: "n < 16 \<Longrightarrow> letter n \<noteq> CHR '':''"
proof
  assume n: "n < 16" and e: "letter n = CHR '':''"
  from e have "of_char (letter n) = (of_char CHR '':'' :: nat)" by simp
  with n show False by (simp add: letter_def)
qed

lemma byte_nibbles: "of_nat (unat b div 16 * 16 + unat b mod 16) = (b :: byte)"
  by simp

lemma letters_decode_encode: "letters_decode (letters_encode bs) = bs"
proof (induction bs)
  case Nil
  show ?case by (simp add: letters_encode_def)
next
  case (Cons b bs)
  have d: "unat b div 16 < 16" using byte_bound[of b] by simp
  have m: "unat b mod 16 < 16" by simp
  have "letters_decode (letters_encode (b # bs))
          = of_nat (unat b div 16 * 16 + unat b mod 16) # letters_decode (letters_encode bs)"
    by (simp add: letters_encode_def letter_value_letter[OF d] letter_value_letter[OF m]
        del: of_nat_add of_nat_mult)
  then show ?case unfolding byte_nibbles Cons.IH .
qed

lemma letters_no_colon: "CHR '':'' \<notin> set (letters_encode bs)"
proof -
  have "unat b div 16 < 16" for b :: byte using byte_bound[of b] by simp
  moreover have "unat b mod 16 < 16" for b :: byte by simp
  ultimately have "CHR '':'' \<noteq> letter (unat b div 16) \<and> CHR '':'' \<noteq> letter (unat b mod 16)"
    for b :: byte
    using letter_not_colon by metis
  then show ?thesis
    by (induction bs) (simp_all add: letters_encode_def)
qed

lemma letters_nonempty: "bs \<noteq> [] \<Longrightarrow> letters_encode bs \<noteq> []"
  by (cases bs) (simp_all add: letters_encode_def)

lemma example_env_laws: "library_laws example_env"
proof -
  have "iv \<noteq> []" if "length iv = 16" for iv :: "byte list"
    using that by auto
  then show ?thesis
    unfolding library_laws_def
    by (simp add: example_env_def letters_decode_encode letters_no_colon letters_nonempty)
qed

lemma example_iv_length: "length example_iv = IV_LENGTH"
  by (simp add: example_iv_def IV_LENGTH_def)

lemma example_secret_well_formed: "example_secret \<noteq> [] \<and> isWellFormed example_secret"
  by (simp add: example_secret_def js_string_def is_surrogate_def is_high_def is_low_def)

subsection \<open>The round trip\<close>

text \<open>
  Claim C3 says that \<open>decrypt(encrypt(x))\<close> is \<open>x\<close> for every string \<open>x\<close> that is not
  empty. The code writes the secret as UTF-8, and a surrogate that stands alone has no
  UTF-8 form: U+FFFD is written in its place. The string of the one code unit U+D800 is
  not empty, and under every runtime and every initialization vector \<open>encrypt\<close> makes
  of it the token it makes of the string U+FFFD, so that \<open>decrypt(encrypt(x))\<close> is the
  same for both. Under the example runtime, which obeys the laws of the library, it is
  the string U+FFFD.
\<close>

theorem decrypt_encrypt_lone_surrogate:
  "(\<forall>env iv. encrypt env iv (Some [0xD800]) = encrypt env iv (Some [0xFFFD]))
   \<and> (\<forall>env iv. decrypt_encrypt env iv (Some [0xD800]) = decrypt_encrypt env iv (Some [0xFFFD]))
   \<and> decrypt_encrypt example_env example_iv (Some [0xD800]) = Inr (Some [0xFFFD])
   \<and> [0xD800] \<noteq> [0xFFFD :: code_unit]"
proof -
  have bytes: "utf8_encode [0xD800] = utf8_encode [0xFFFD]"
    using utf8_encode_lone_surrogate by simp
  have a: "encrypt env iv (Some [0xD800]) = encrypt env iv (Some [0xFFFD])" for env iv
    by (rule encrypt_same_bytes[OF bytes]) simp_all
  have b: "decrypt_encrypt env iv (Some [0xD800]) = decrypt_encrypt env iv (Some [0xFFFD])"
    for env iv
    unfolding decrypt_encrypt_def a ..
  have "toWellFormed [0xD800] = [0xFFFD]"
    by (simp add: toWellFormed_simps is_surrogate_def)
  then have c: "decrypt_encrypt example_env example_iv (Some [0xD800]) = Inr (Some [0xFFFD])"
    using decrypt_encrypt_toWellFormed[OF example_env_laws example_iv_length, of "[0xD800]"]
    by simp
  have d: "[0xD800] \<noteq> [0xFFFD :: code_unit]" by simp
  show ?thesis using a b c d by blast
qed

text \<open>
  Claim C3, amended. Under the laws of the library, for every initialization vector of
  \<open>IV_LENGTH\<close> bytes: for every string \<open>x\<close> that is not empty and is well-formed,
  \<open>decrypt(encrypt(x))\<close> is \<open>x\<close>; for every string \<open>x\<close> that is not empty it is \<open>x\<close>
  with each surrogate that stands alone replaced by U+FFFD, and that is \<open>x\<close> exactly when
  \<open>x\<close> is well-formed. \<open>encrypt\<close> of null and of the empty string is null, and
  \<open>decrypt\<close> of null and of the empty string is null.
\<close>

theorem encrypt_decrypt_roundtrip:
  "(x \<noteq> [] \<and> isWellFormed x \<and> library_laws env \<and> length iv = IV_LENGTH \<longrightarrow>
      decrypt_encrypt env iv (Some x) = Inr (Some x))
   \<and> (x \<noteq> [] \<and> library_laws env \<and> length iv = IV_LENGTH \<longrightarrow>
      decrypt_encrypt env iv (Some x) = Inr (Some (toWellFormed x)))
   \<and> (toWellFormed x = x) = isWellFormed x
   \<and> encrypt env iv None = Inr None
   \<and> encrypt env iv (Some []) = Inr None
   \<and> decrypt env None = Inr None
   \<and> decrypt env (Some []) = Inr None"
proof -
  have a: "decrypt_encrypt env iv (Some x) = Inr (Some (toWellFormed x))"
    if "x \<noteq> [] \<and> library_laws env \<and> length iv = IV_LENGTH"
    using that decrypt_encrypt_toWellFormed[of env iv x] by blast
  have b: "(toWellFormed x = x) = isWellFormed x"
    by (simp add: isWellFormed_iff)
  have c: "decrypt_encrypt env iv (Some x) = Inr (Some x)"
    if "x \<noteq> [] \<and> isWellFormed x \<and> library_laws env \<and> length iv = IV_LENGTH"
    using that a b by simp
  have d: "encrypt env iv None = Inr None" "encrypt env iv (Some []) = Inr None"
    "decrypt env None = Inr None" "decrypt env (Some []) = Inr None"
    by (simp_all add: encrypt_def decrypt_def or_null_def)
  show ?thesis using a b c d by blast
qed

theorem encrypt_decrypt_roundtrip_witness:
  "example_secret \<noteq> [] \<and> isWellFormed example_secret
   \<and> library_laws example_env
   \<and> length example_iv = IV_LENGTH
   \<and> decrypt_encrypt example_env example_iv (Some example_secret) = Inr (Some example_secret)"
proof -
  note a = example_secret_well_formed
  note b = example_env_laws
  note c = example_iv_length
  have d: "decrypt_encrypt example_env example_iv (Some example_secret)
             = Inr (Some example_secret)"
    using encrypt_decrypt_roundtrip[of example_secret example_env example_iv] a b c
    by blast
  show ?thesis using a b c d by blast
qed

text \<open>
  Claim C8. \<open>decrypt\<close> throws the format error on every token that is not empty and has
  no colon, and on every token whose part before the first colon is empty or whose part
  after the first colon is empty (the token ends there, or a second colon follows at
  once).
\<close>

theorem decrypt_malformed_token:
  "(t \<noteq> [] \<and> CHR '':'' \<notin> set t \<longrightarrow> decrypt env (Some t) = Inl InvalidEncryptedTextFormat)
   \<and> (CHR '':'' \<notin> set a \<and> (a = [] \<or> b = [] \<or> hd b = CHR '':'') \<longrightarrow>
        decrypt env (Some (a @ CHR '':'' # b)) = Inl InvalidEncryptedTextFormat)"
proof (intro conjI impI)
  assume "t \<noteq> [] \<and> CHR '':'' \<notin> set t"
  then show "decrypt env (Some t) = Inl InvalidEncryptedTextFormat"
    by (simp add: decrypt_def or_null_def split_no_sep element_def)
next
  assume h: "CHR '':'' \<notin> set a \<and> (a = [] \<or> b = [] \<or> hd b = CHR '':'')"
  then have s: "split CHR '':'' (a @ CHR '':'' # b) = a # split CHR '':'' b"
    by (simp add: split_append_sep)
  obtain f fs where f: "split CHR '':'' b = f # fs"
    using split_nonempty[of "CHR '':''" b] by (cases "split CHR '':'' b") auto
  from h consider "a = []" | "b = [] \<or> hd b = CHR '':''" by blast
  then show "decrypt env (Some (a @ CHR '':'' # b)) = Inl InvalidEncryptedTextFormat"
  proof cases
    case 1
    then show ?thesis
      by (simp add: decrypt_def or_null_def element_def f)
  next
    case 2
    then have "f = []" using split_hd_empty[of b "CHR '':''"] f by simp
    then show ?thesis
      by (simp add: decrypt_def or_null_def element_def s f)
  qed
qed

theorem decrypt_malformed_token_witness:
  "''garbage'' \<noteq> [] \<and> CHR '':'' \<notin> set ''garbage''
   \<and> decrypt example_env (Some ''garbage'') = Inl InvalidEncryptedTextFormat
   \<and> CHR '':'' \<notin> set ''abc''
   \<and> decrypt example_env (Some ''abc:'') = Inl InvalidEncryptedTextFormat
   \<and> decrypt example_env (Some '':abc'') = Inl InvalidEncryptedTextFormat
   \<and> decrypt example_env (Some ''abc::def'') = Inl InvalidEncryptedTextFormat"
  using decrypt_malformed_token[of "''garbage''" example_env "''abc''" "[]"]
        decrypt_malformed_token[of "''garbage''" example_env "[]" "''abc''"]
        decrypt_malformed_token[of "''garbage''" example_env "''abc''" "'':def''"]
  by simp

subsection \<open>The stored credential\<close>

text \<open>
  The token that \<open>encrypt\<close> returns holds a colon, so it is never the empty string, and
  \<open>setApiKey\<close> stores either that token or null. No other operation of the store touches
  \<open>config.apiKey\<close>. So no store that the program writes holds the empty string there.
\<close>

lemma encrypt_not_empty: "encrypt env iv x = Inr (Some t) \<Longrightarrow> t \<noteq> []"
  by (auto simp: encrypt_def Let_def split: option.splits sum.splits)

lemma setApiKey_apiKey:
  assumes "setApiKey env iv key d = Inr d'"
  shows "apiKey (config d') \<noteq> Some []"
proof (cases "or_null key")
  case None
  with assms show ?thesis by (auto simp: setApiKey_def)
next
  case (Some k)
  with assms obtain token where t: "encrypt env iv (Some k) = Inr token"
    and d': "d' = d\<lparr>config := (config d)\<lparr>apiKey := token\<rparr>\<rparr>"
    by (auto simp: setApiKey_def split: sum.splits)
  show ?thesis
  proof (cases token)
    case None
    then show ?thesis by (simp add: d')
  next
    case (Some s)
    with t have "s \<noteq> []" using encrypt_not_empty by blast
    with Some show ?thesis by (simp add: d')
  qed
qed

lemma apply_page_op_apiKey: "apiKey (config (apply_page_op d op)) = apiKey (config d)"
  by (cases op)
     (auto simp: addPage_def updatePage_def deletePage_def Let_def split: option.splits)

lemma addHistory_apiKey: "apiKey (config (snd (addHistory n t r d))) = apiKey (config d)"
  by (simp add: addHistory_def Let_def)

lemma apply_store_op_apiKey:
  "apiKey (config d) \<noteq> Some [] \<Longrightarrow> apiKey (config (apply_store_op d op)) \<noteq> Some []"
proof (cases op)
  case (SetApiKey env iv key)
  assume "apiKey (config d) \<noteq> Some []"
  then show ?thesis
    using SetApiKey setApiKey_apiKey[of env iv key d]
    by (cases "setApiKey env iv key d") simp_all
qed (simp_all add: apply_page_op_apiKey addHistory_apiKey)

lemma run_store_apiKey: "apiKey (config (run_store ops)) \<noteq> Some []"
proof (induction ops rule: rev_induct)
  case Nil
  show ?case by (simp add: run_store_def defaultData_def)
next
  case (snoc op ops)
  then show ?case
    using apply_store_op_apiKey[of "run_store ops" op] by (simp add: run_store_def)
qed

text \<open>A secret that \<open>setApiKey\<close> stored is the secret that \<open>getApiKey\<close> returns, when it
  is a well-formed string.\<close>

lemma getApiKey_setApiKey:
  assumes laws: "library_laws env" and iv: "length iv = IV_LENGTH"
    and x: "x \<noteq> []" and wf: "isWellFormed x"
  shows "\<exists>d'. setApiKey env iv (Some x) d = Inr d' \<and> apiKey (config d') \<noteq> None
           \<and> getApiKey env d' = Inr (Some x)"
proof -
  define token where "token = base64_encode env iv @ CHR '':'' #
     base64_encode env (aes_256_cbc_encrypt env (getSecretKey env) iv (utf8_encode x))"
  have e: "encrypt env iv (Some x) = Inr (Some token)"
    unfolding token_def by (rule encrypt_token[OF laws iv x])
  have d: "decrypt env (Some token) = Inr (Some x)"
    unfolding token_def decrypt_token[OF laws iv] utf8_decode_encode
    using wf by (simp add: isWellFormed_iff)
  have s: "setApiKey env iv (Some x) d = Inr (d\<lparr>config := (config d)\<lparr>apiKey := Some token\<rparr>\<rparr>)"
    using x by (simp add: setApiKey_def or_null_def e)
  have "getApiKey env (d\<lparr>config := (config d)\<lparr>apiKey := Some token\<rparr>\<rparr>) = Inr (Some x)"
    using d by (simp add: getApiKey_def or_null_def token_def)
  with s show ?thesis by simp
qed

lemma example_store_key:
  "apiKey (config example_store) \<noteq> None
   \<and> getApiKey example_env example_store = Inr (Some example_secret)"
proof -
  obtain d' where d': "setApiKey example_env example_iv (Some example_secret) defaultData = Inr d'"
    "apiKey (config d') \<noteq> None" "getApiKey example_env d' = Inr (Some example_secret)"
    using getApiKey_setApiKey[OF example_env_laws example_iv_length, of example_secret defaultData]
      example_secret_well_formed
    by blast
  have "example_store = d'"
    by (simp add: example_store_def run_store_def d'(1))
  with d'(2,3) show ?thesis by simp
qed

text \<open>
  Claim C10. On every store that the program writes, \<open>hasApiKey\<close> is true exactly when
  the stored \<open>config.apiKey\<close> is not null. \<open>hasApiKey\<close> takes the stored document alone
  and no runtime: it does not decrypt, and two documents with the same \<open>config.apiKey\<close>
  get the same answer. Whenever \<open>getApiKey\<close> throws, \<open>hasApiKey\<close> is true; and a store
  whose ciphertext is the corrupt text \<open>corrupt\<close> is reported as configured while
  \<open>getApiKey\<close> throws the format error, under every runtime.
\<close>

theorem hasApiKey_iff_stored:
  "hasApiKey (run_store ops) = (apiKey (config (run_store ops)) \<noteq> None)
   \<and> (apiKey (config d) = apiKey (config d') \<longrightarrow> hasApiKey d = hasApiKey d')
   \<and> (getApiKey env d = Inl e \<longrightarrow> hasApiKey d)
   \<and> hasApiKey (d\<lparr>config := (config d)\<lparr>apiKey := Some ''corrupt''\<rparr>\<rparr>)
   \<and> getApiKey env (d\<lparr>config := (config d)\<lparr>apiKey := Some ''corrupt''\<rparr>\<rparr>)
       = Inl InvalidEncryptedTextFormat"
proof -
  have a: "hasApiKey (run_store ops) = (apiKey (config (run_store ops)) \<noteq> None)"
    using run_store_apiKey[of ops]
    by (cases "apiKey (config (run_store ops))") (simp_all add: hasApiKey_def or_null_def)
  have b: "hasApiKey d = hasApiKey d'" if "apiKey (config d) = apiKey (config d')"
    using that by (simp add: hasApiKey_def)
  have c: "hasApiKey d" if "getApiKey env d = Inl e"
    using that by (auto simp: hasApiKey_def getApiKey_def split: option.splits)
  have d: "hasApiKey (d\<lparr>config := (config d)\<lparr>apiKey := Some ''corrupt''\<rparr>\<rparr>)"
    by (simp add: hasApiKey_def or_null_def)
  have e: "getApiKey env (d\<lparr>config := (config d)\<lparr>apiKey := Some ''corrupt''\<rparr>\<rparr>)
       = Inl InvalidEncryptedTextFormat"
    by (simp add: getApiKey_def or_null_def decrypt_def element_def)
  show ?thesis using a b c d e by blast
qed

theorem hasApiKey_iff_stored_witness:
  "apiKey (config (run_store [SetApiKey example_env example_iv (Some example_secret)])) \<noteq> None
   \<and> hasApiKey (run_store [SetApiKey example_env example_iv (Some example_secret)])
   \<and> \<not> hasApiKey (run_store [SetApiKey example_env example_iv (Some example_secret),
                               SetApiKey example_env example_iv None])
   \<and> getApiKey example_env (defaultData\<lparr>config := \<lparr>apiKey = Some ''abc:'', defaultPageId = None\<rparr>\<rparr>)
       = Inl InvalidEncryptedTextFormat
   \<and> hasApiKey (defaultData\<lparr>config := \<lparr>apiKey = Some ''abc:'', defaultPageId = None\<rparr>\<rparr>)"
proof -
  let ?corrupt = "defaultData\<lparr>config := \<lparr>apiKey = Some ''abc:'', defaultPageId = None\<rparr>\<rparr>"
  have a: "apiKey (config (run_store [SetApiKey example_env example_iv (Some example_secret)]))
             \<noteq> None"
    using example_store_key by (simp add: example_store_def)
  have b: "hasApiKey (run_store [SetApiKey example_env example_iv (Some example_secret)])"
    using hasApiKey_iff_stored[of "[SetApiKey example_env example_iv (Some example_secret)]"] a
    by blast
  have "apiKey (config (run_store [SetApiKey example_env example_iv (Some example_secret),
                               SetApiKey example_env example_iv None])) = None"
    by (simp add: run_store_def setApiKey_def or_null_def split: sum.splits)
  then have c: "\<not> hasApiKey (run_store [SetApiKey example_env example_iv (Some example_secret),
                               SetApiKey example_env example_iv None])"
    using hasApiKey_iff_stored[of "[SetApiKey example_env example_iv (Some example_secret),
                               SetApiKey example_env example_iv None]"]
    by blast
  have d: "getApiKey example_env ?corrupt = Inl InvalidEncryptedTextFormat"
    by (simp add: getApiKey_def or_null_def decrypt_def element_def)
  have e: "hasApiKey ?corrupt"
    using hasApiKey_iff_stored[of _ ?corrupt _ example_env InvalidEncryptedTextFormat] d
    by blast
  show ?thesis by (intro conjI a b c d e)
qed

section \<open>Properties of the remote publisher\<close>

lemma batches_Nil: "batches n [] = []"
  by (subst batches.simps) simp

lemma concat_batches: "0 < n \<Longrightarrow> concat (batches n xs) = xs"
proof (induction n xs rule: batches.induct)
  case (1 n xs)
  show ?case
  proof (cases "xs = []")
    case True
    then show ?thesis by (subst batches.simps) simp
  next
    case False
    with 1 show ?thesis by (subst batches.simps) simp
  qed
qed

lemma batches_bound: "b \<in> set (batches n xs) \<Longrightarrow> length b \<le> n \<and> b \<noteq> []"
proof (induction n xs rule: batches.induct)
  case (1 n xs)
  show ?case
  proof (cases "n = 0 \<or> xs = []")
    case True
    with 1(2) show ?thesis by (subst (asm) batches.simps) simp
  next
    case False
    from 1(2) have "b = take n xs \<or> b \<in> set (batches n (drop n xs))"
      by (subst (asm) batches.simps) (use False in auto)
    then show ?thesis
    proof
      assume "b = take n xs"
      with False show ?thesis by auto
    next
      assume "b \<in> set (batches n (drop n xs))"
      with 1(1) False show ?thesis by blast
    qed
  qed
qed

lemma appendBlocks_loop_all_accepted:
  "\<forall>bs. blocks_children_append cl pid bs = Inr () \<Longrightarrow>
   appendBlocks_loop cl pid blocks i =
     (map (BlocksChildrenAppend pid) (batches MAX_BLOCKS_PER_REQUEST (drop i blocks)), None)"
proof (induction cl pid blocks i rule: appendBlocks_loop.induct)
  case (1 cl pid blocks i)
  have acc: "blocks_children_append cl pid bs = Inr ()" for bs
    using "1.prems" by simp
  show ?case
  proof (cases "i < length blocks")
    case False
    then show ?thesis
      by (subst appendBlocks_loop.simps, subst batches.simps) simp
  next
    case True
    have ih: "appendBlocks_loop cl pid blocks (i + MAX_BLOCKS_PER_REQUEST) =
        (map (BlocksChildrenAppend pid)
          (batches MAX_BLOCKS_PER_REQUEST (drop (i + MAX_BLOCKS_PER_REQUEST) blocks)), None)"
      using "1.IH"[OF True refl acc "1.prems"] .
    have b: "batches MAX_BLOCKS_PER_REQUEST (drop i blocks) =
        slice blocks i (i + MAX_BLOCKS_PER_REQUEST)
          # batches MAX_BLOCKS_PER_REQUEST (drop (i + MAX_BLOCKS_PER_REQUEST) blocks)"
      using True
      by (subst batches.simps) (simp add: slice_def MAX_BLOCKS_PER_REQUEST_def add.commute)
    show ?thesis
      by (subst appendBlocks_loop.simps) (simp add: True acc ih b Let_def)
  qed
qed

text \<open>
  Claim C6. With a configured key and a remote that accepts the requests, \<open>createPage\<close>
  succeeds and makes these requests in this order: one \<open>pages.create\<close> carrying the first
  100 blocks, then one \<open>blocks.children.append\<close> to the new page for each batch of 100 of
  the remaining blocks. The blocks of the requests, concatenated, are the input list; no
  request carries more than 100 blocks; and for 250 blocks there are three requests,
  carrying 100, 100 and 50 blocks.
\<close>

theorem createPage_batches:
  assumes key: "initClient env d = Inr key"
    and created: "pages_create cl parent title (take 100 blocks) = Inr (rid, rurl)"
    and appended: "\<forall>bs. blocks_children_append cl rid bs = Inr ()"
  shows "createPage env d cl parent title blocks =
           (Success rid rurl title,
            PagesCreate parent title (take 100 blocks)
              # map (BlocksChildrenAppend rid) (batches 100 (drop 100 blocks)))
       \<and> concat (map children (snd (createPage env d cl parent title blocks))) = blocks
       \<and> (\<forall>c \<in> set (snd (createPage env d cl parent title blocks)). length (children c) \<le> 100)
       \<and> (length blocks = 250 \<longrightarrow>
            map (\<lambda>c. length (children c)) (snd (createPage env d cl parent title blocks))
              = [100, 100, 50])"
proof -
  let ?calls = "PagesCreate parent title (take 100 blocks)
              # map (BlocksChildrenAppend rid) (batches 100 (drop 100 blocks))"
  have loop: "appendBlocks env d cl rid (drop 100 blocks) =
      (map (BlocksChildrenAppend rid) (batches 100 (drop 100 blocks)), None)"
    using appendBlocks_loop_all_accepted[OF appended, of "drop 100 blocks" 0]
    by (simp add: appendBlocks_def key MAX_BLOCKS_PER_REQUEST_def)
  have cp: "createPage env d cl parent title blocks = (Success rid rurl title, ?calls)"
  proof (cases "length blocks \<le> 100")
    case True
    with created have "pages_create cl parent title blocks = Inr (rid, rurl)" by simp
    with True show ?thesis
      by (simp add: createPage_def key slice_def MAX_BLOCKS_PER_REQUEST_def Let_def batches_Nil)
  next
    case False
    then show ?thesis
      by (simp add: createPage_def key created slice_def MAX_BLOCKS_PER_REQUEST_def Let_def loop)
  qed
  have cc: "concat (map children ?calls) = blocks"
  proof -
    have "concat (map children ?calls) = take 100 blocks @ concat (batches 100 (drop 100 blocks))"
      by (simp add: comp_def)
    also have "\<dots> = take 100 blocks @ drop 100 blocks"
      by (simp only: concat_batches[of 100 "drop 100 blocks", simplified])
    finally show ?thesis by simp
  qed
  have le: "\<forall>c \<in> set ?calls. length (children c) \<le> 100"
  proof
    fix c assume "c \<in> set ?calls"
    then consider "c = PagesCreate parent title (take 100 blocks)"
      | b where "c = BlocksChildrenAppend rid b" "b \<in> set (batches 100 (drop 100 blocks))"
      by auto
    then show "length (children c) \<le> 100"
    proof cases
      case 1
      then show ?thesis by simp
    next
      case 2
      then show ?thesis using batches_bound[of b 100 "drop 100 blocks"] by simp
    qed
  qed
  have n250: "map (\<lambda>c. length (children c)) ?calls = [100, 100, 50]" if "length blocks = 250"
  proof -
    have b2: "batches 100 (drop 200 blocks) = [take 100 (drop 200 blocks)]"
      using that by (subst batches.simps) (simp add: batches_Nil)
    have "batches 100 (drop 100 blocks) =
        [take 100 (drop 100 blocks), take 100 (drop 200 blocks)]"
      using that by (subst batches.simps) (simp add: b2)
    then show ?thesis using that by simp
  qed
  show ?thesis
    unfolding cp snd_conv using cc le n250 by blast
qed

theorem createPage_batches_witness:
  "initClient example_env example_store = Inr example_secret
   \<and> pages_create example_client ''parent'' ''Title'' (take 100 [0..<250])
       = Inr (''new-page'', ''https://www.notion.so/new-page'')
   \<and> (\<forall>bs. blocks_children_append example_client ''new-page'' bs = Inr ())
   \<and> length [0..<250] = 250
   \<and> map (\<lambda>c. length (children c))
         (snd (createPage example_env example_store example_client ''parent'' ''Title'' [0..<250]))
       = [100, 100, 50]
   \<and> concat (map children
         (snd (createPage example_env example_store example_client ''parent'' ''Title'' [0..<250])))
       = [0..<250]"
proof -
  have a: "initClient example_env example_store = Inr example_secret"
    using example_store_key example_secret_well_formed
    by (simp add: initClient_def or_null_def)
  have b: "pages_create example_client ''parent'' ''Title'' (take 100 [0..<250])
       = Inr (''new-page'', ''https://www.notion.so/new-page'')"
    by (simp add: example_client_def)
  have c: "\<forall>bs. blocks_children_append example_client ''new-page'' bs = Inr ()"
    by (simp add: example_client_def)
  have l: "length [0..<250] = 250" by simp
  note t = createPage_batches[OF a b c]
  from t l have d: "map (\<lambda>c. length (children c))
         (snd (createPage example_env example_store example_client ''parent'' ''Title'' [0..<250]))
       = [100, 100, 50]"
    by blast
  from t have e: "concat (map children
         (snd (createPage example_env example_store example_client ''parent'' ''Title'' [0..<250])))
       = [0..<250]"
    by blast
  show ?thesis by (intro conjI a b c l d e)
qed

section \<open>Properties of the identifier extractor\<close>

subsection \<open>What the matcher's results are\<close>

lemma recognisesI:
  "(\<And>s c. set (ms ic w r (s, c)) = {(s', c) | s'. \<exists>u. s = u @ s' \<and> A u s'}) \<Longrightarrow> recognises ic w r A"
  by (simp add: recognises_def)

lemma recognisesD:
  "recognises ic w r A \<Longrightarrow> set (ms ic w r (s, c)) = {(s', c) | s'. \<exists>u. s = u @ s' \<and> A u s'}"
  by (simp add: recognises_def)

lemma recognises_mem:
  "recognises ic w r A \<Longrightarrow> (st' \<in> set (ms ic w r (s, c))) = (snd st' = c \<and> (\<exists>u. s = u @ fst st' \<and> A u (fst st')))"
  by (cases st') (auto simp: recognises_def)

lemma recognises_cong:
  "recognises ic w r A \<Longrightarrow> (\<And>u s'. A u s' = B u s') \<Longrightarrow> recognises ic w r B"
  by (simp add: recognises_def)

lemma recognises_Atom:
  "recognises ic w (Atom a) (\<lambda>u s'. \<exists>x. u = [x] \<and> atom_matches ic a x)"
  by (rule recognisesI) (auto split: list.splits)

lemma recognises_Eps: "recognises ic w Eps (\<lambda>u s'. u = [])"
  by (rule recognisesI) auto

lemma recognises_Bol: "recognises ic w Bol (\<lambda>u s'. u = [] \<and> length s' = length w)"
  by (rule recognisesI) auto

lemma recognises_Eol: "recognises ic w Eol (\<lambda>u s'. u = [] \<and> s' = [])"
  by (rule recognisesI) auto

lemma recognises_Seq:
  assumes "recognises ic w r1 A" and "recognises ic w r2 B"
  shows "recognises ic w (Seq r1 r2) (\<lambda>u s'. \<exists>a b. u = a @ b \<and> A a (b @ s') \<and> B b s')"
proof (rule recognisesI)
  fix s c
  show "set (ms ic w (Seq r1 r2) (s, c)) =
        {(s', c) | s'. \<exists>u. s = u @ s' \<and> (\<exists>a b. u = a @ b \<and> A a (b @ s') \<and> B b s')}"
  proof (rule set_eqI)
    fix st :: mstate
    obtain s' c' where st: "st = (s', c')" by (cases st)
    have "st \<in> set (ms ic w (Seq r1 r2) (s, c)) \<longleftrightarrow>
          (\<exists>m. m \<in> set (ms ic w r1 (s, c)) \<and> st \<in> set (ms ic w r2 m))"
      by auto
    also have "\<dots> \<longleftrightarrow> (\<exists>ms'. (\<exists>a. s = a @ ms' \<and> A a ms') \<and> st \<in> set (ms ic w r2 (ms', c)))"
      using recognisesD[OF assms(1), of s c] by auto
    also have "\<dots> \<longleftrightarrow> (\<exists>ms'. (\<exists>a. s = a @ ms' \<and> A a ms') \<and> c' = c \<and> (\<exists>b. ms' = b @ s' \<and> B b s'))"
      using recognises_mem[OF assms(2)] st by auto
    also have "\<dots> \<longleftrightarrow> (c' = c \<and> (\<exists>u. s = u @ s' \<and> (\<exists>a b. u = a @ b \<and> A a (b @ s') \<and> B b s')))"
      by (auto; blast)
    finally show "st \<in> set (ms ic w (Seq r1 r2) (s, c)) \<longleftrightarrow>
       st \<in> {(s', c) | s'. \<exists>u. s = u @ s' \<and> (\<exists>a b. u = a @ b \<and> A a (b @ s') \<and> B b s')}"
      using st by auto
  qed
qed

lemma recognises_Alt:
  assumes "recognises ic w r1 A" and "recognises ic w r2 B"
  shows "recognises ic w (Alt r1 r2) (\<lambda>u s'. A u s' \<or> B u s')"
  by (rule recognisesI) (auto simp: recognisesD[OF assms(1)] recognisesD[OF assms(2)])

lemma recognises_Opt:
  assumes "recognises ic w r A"
  shows "recognises ic w (Opt r) (\<lambda>u s'. A u s' \<or> u = [])"
  by (rule recognisesI) (auto simp: recognisesD[OF assms(1)])

subsection \<open>Characters, case and classes\<close>

lemma of_char_upper_char:
  "(of_char (upper_char c) :: nat) =
     (if (97 \<le> (of_char c :: nat) \<and> (of_char c :: nat) \<le> 122)
         \<or> (224 \<le> (of_char c :: nat) \<and> (of_char c :: nat) \<le> 254 \<and> (of_char c :: nat) \<noteq> 247)
      then of_char c - 32 else of_char c)"
proof (cases "(97 \<le> (of_char c :: nat) \<and> (of_char c :: nat) \<le> 122)
         \<or> (224 \<le> (of_char c :: nat) \<and> (of_char c :: nat) \<le> 254 \<and> (of_char c :: nat) \<noteq> 247)")
  case True
  have lt: "(of_char c :: nat) - 32 < 256"
    using nat_of_char_less_256[of c] by linarith
  show ?thesis
    by (simp only: upper_char_def Let_def True if_True of_char_of mod_less[OF lt])
next
  case False
  show ?thesis
    by (simp only: upper_char_def Let_def False if_False)
qed

lemma of_char_lower_char:
  "(of_char (lower_char c) :: nat) =
     (if (65 \<le> (of_char c :: nat) \<and> (of_char c :: nat) \<le> 90)
         \<or> (192 \<le> (of_char c :: nat) \<and> (of_char c :: nat) \<le> 222 \<and> (of_char c :: nat) \<noteq> 215)
      then of_char c + 32 else of_char c)"
proof (cases "(65 \<le> (of_char c :: nat) \<and> (of_char c :: nat) \<le> 90)
         \<or> (192 \<le> (of_char c :: nat) \<and> (of_char c :: nat) \<le> 222 \<and> (of_char c :: nat) \<noteq> 215)")
  case True
  then have lt: "(of_char c :: nat) + 32 < 256" by linarith
  show ?thesis
    by (simp only: lower_char_def Let_def True if_True of_char_of mod_less[OF lt])
next
  case False
  show ?thesis
    by (simp only: lower_char_def Let_def False if_False)
qed

lemma code_cases:
  fixes n :: nat
  obtains (lower) "97 \<le> n" "n \<le> 122"
    | (upper) "65 \<le> n" "n \<le> 90"
    | (latin_lower) "224 \<le> n" "n \<le> 254" "n \<noteq> 247"
    | (latin_upper) "192 \<le> n" "n \<le> 222" "n \<noteq> 215"
    | (other) "\<not> (97 \<le> n \<and> n \<le> 122)" "\<not> (65 \<le> n \<and> n \<le> 90)"
        "\<not> (224 \<le> n \<and> n \<le> 254 \<and> n \<noteq> 247)" "\<not> (192 \<le> n \<and> n \<le> 222 \<and> n \<noteq> 215)"
  by blast

lemma fold_codes:
  fixes n :: nat
  defines "U \<equiv> (if (97 \<le> n \<and> n \<le> 122) \<or> (224 \<le> n \<and> n \<le> 254 \<and> n \<noteq> 247) then n - 32 else n)"
    and "L \<equiv> (if (65 \<le> n \<and> n \<le> 90) \<or> (192 \<le> n \<and> n \<le> 222 \<and> n \<noteq> 215) then n + 32 else n)"
  shows "(97 \<le> n \<and> n \<le> 122 \<and> U = n - 32 \<and> L = n)
       \<or> (65 \<le> n \<and> n \<le> 90 \<and> U = n \<and> L = n + 32)
       \<or> (224 \<le> n \<and> n \<le> 254 \<and> U = n - 32 \<and> L = n)
       \<or> (192 \<le> n \<and> n \<le> 222 \<and> U = n \<and> L = n + 32)
       \<or> ((n < 65 \<or> (90 < n \<and> n < 97) \<or> (122 < n \<and> n < 192) \<or> n = 215 \<or> n = 223 \<or> n = 247 \<or> 254 < n)
            \<and> U = n \<and> L = n)"
proof (cases n rule: code_cases)
  case lower then show ?thesis unfolding U_def L_def by simp
next
  case upper then show ?thesis unfolding U_def L_def by simp
next
  case latin_lower then show ?thesis unfolding U_def L_def by simp
next
  case latin_upper then show ?thesis unfolding U_def L_def by simp
next
  case other
  from other have c1: "\<not> ((97 \<le> n \<and> n \<le> 122) \<or> (224 \<le> n \<and> n \<le> 254 \<and> n \<noteq> 247))"
    and c2: "\<not> ((65 \<le> n \<and> n \<le> 90) \<or> (192 \<le> n \<and> n \<le> 222 \<and> n \<noteq> 215))"
    by blast+
  have "U = n" unfolding U_def using c1 by (rule if_not_P)
  moreover have "L = n" unfolding L_def using c2 by (rule if_not_P)
  moreover from other have "n < 65 \<or> (90 < n \<and> n < 97) \<or> (122 < n \<and> n < 192) \<or> n = 215 \<or> n = 223 \<or> n = 247 \<or> 254 < n"
    by linarith
  ultimately show ?thesis by blast
qed

lemma fold_char:
  fixes c :: char
  defines "n \<equiv> (of_char c :: nat)"
    and "U \<equiv> (of_char (upper_char c) :: nat)"
    and "L \<equiv> (of_char (lower_char c) :: nat)"
  shows "(97 \<le> n \<and> n \<le> 122 \<and> U = n - 32 \<and> L = n)
       \<or> (65 \<le> n \<and> n \<le> 90 \<and> U = n \<and> L = n + 32)
       \<or> (224 \<le> n \<and> n \<le> 254 \<and> U = n - 32 \<and> L = n)
       \<or> (192 \<le> n \<and> n \<le> 222 \<and> U = n \<and> L = n + 32)
       \<or> ((n < 65 \<or> (90 < n \<and> n < 97) \<or> (122 < n \<and> n < 192) \<or> n = 215 \<or> n = 223 \<or> n = 247 \<or> 254 < n)
            \<and> U = n \<and> L = n)"
  unfolding n_def U_def L_def of_char_upper_char of_char_lower_char
  by (rule fold_codes)


lemma class_single:
  assumes "(of_char x :: nat) < 65 \<or> (90 < (of_char x :: nat) \<and> (of_char x :: nat) < 97)
           \<or> (122 < (of_char x :: nat) \<and> (of_char x :: nat) < 128)"
  shows "class_matches True [(x, x)] c = (c = x)"
proof -
  define n U L k where "n = (of_char c :: nat)" and "U = (of_char (upper_char c) :: nat)"
    and "L = (of_char (lower_char c) :: nat)" and "k = (of_char x :: nat)"
  have cm: "class_matches True [(x, x)] c = (k \<le> n \<and> n \<le> k \<or> k \<le> U \<and> U \<le> k \<or> k \<le> L \<and> L \<le> k)"
    by (simp only: class_matches_def in_ranges.simps if_True n_def U_def L_def k_def simp_thms)
  have k: "k < 65 \<or> (90 < k \<and> k < 97) \<or> (122 < k \<and> k < 128)"
    using assms by (simp only: k_def)
  have "(k \<le> n \<and> n \<le> k \<or> k \<le> U \<and> U \<le> k \<or> k \<le> L \<and> L \<le> k) = (n = k)"
    using fold_char[of c, folded n_def U_def L_def] k by arith
  also have "\<dots> = (c = x)"
    by (simp add: n_def k_def)
  finally show ?thesis using cm by simp
qed


lemma lit_other:
  assumes "(of_char x :: nat) < 65 \<or> (90 < (of_char x :: nat) \<and> (of_char x :: nat) < 97)
           \<or> (122 < (of_char x :: nat) \<and> (of_char x :: nat) < 128)"
  shows "(upper_char x = upper_char c) = (c = x)"
proof -
  define n U k Uk where "n = (of_char c :: nat)" and "U = (of_char (upper_char c) :: nat)"
    and "k = (of_char x :: nat)" and "Uk = (of_char (upper_char x) :: nat)"
  have k: "k < 65 \<or> (90 < k \<and> k < 97) \<or> (122 < k \<and> k < 128)"
    using assms by (simp only: k_def)
  have uk: "Uk = k"
    using fold_char[of x, folded k_def Uk_def] k by arith
  have "(upper_char x = upper_char c) = (Uk = U)"
    by (simp add: Uk_def U_def)
  also have "\<dots> = (n = k)"
    unfolding uk using fold_char[of c, folded n_def U_def] k by arith
  also have "\<dots> = (c = x)"
    by (simp add: n_def k_def)
  finally show ?thesis .
qed

lemma lit_letter:
  assumes "97 \<le> (of_char x :: nat) \<and> (of_char x :: nat) \<le> 122"
  shows "(upper_char x = upper_char c) = (lower_char c = x)"
proof -
  define n U L k Uk where "n = (of_char c :: nat)" and "U = (of_char (upper_char c) :: nat)"
    and "L = (of_char (lower_char c) :: nat)"
    and "k = (of_char x :: nat)" and "Uk = (of_char (upper_char x) :: nat)"
  have k: "97 \<le> k \<and> k \<le> 122"
    using assms by (simp only: k_def)
  have uk: "Uk = k - 32"
    using fold_char[of x, folded k_def Uk_def] k by arith
  have "(upper_char x = upper_char c) = (Uk = U)"
    by (simp add: Uk_def U_def)
  also have "\<dots> = (L = k)"
    unfolding uk using fold_char[of c, folded n_def U_def L_def] k by arith
  also have "\<dots> = (lower_char c = x)"
    by (simp add: L_def k_def)
  finally show ?thesis .
qed

lemma hex_class:
  "class_matches True [(CHR ''a'', CHR ''f''), (CHR ''0'', CHR ''9'')] c = is_hex c"
proof -
  define n U L where "n = (of_char c :: nat)" and "U = (of_char (upper_char c) :: nat)"
    and "L = (of_char (lower_char c) :: nat)"
  have lits: "(of_char CHR ''a'' :: nat) = 97" "(of_char CHR ''f'' :: nat) = 102"
    "(of_char CHR ''0'' :: nat) = 48" "(of_char CHR ''9'' :: nat) = 57"
    by simp_all
  have cm: "class_matches True [(CHR ''a'', CHR ''f''), (CHR ''0'', CHR ''9'')] c =
      ((97 \<le> n \<and> n \<le> 102 \<or> 48 \<le> n \<and> n \<le> 57)
       \<or> (97 \<le> U \<and> U \<le> 102 \<or> 48 \<le> U \<and> U \<le> 57)
       \<or> (97 \<le> L \<and> L \<le> 102 \<or> 48 \<le> L \<and> L \<le> 57))"
    by (simp only: class_matches_def in_ranges.simps if_True n_def U_def L_def lits simp_thms)
  have "((97 \<le> n \<and> n \<le> 102 \<or> 48 \<le> n \<and> n \<le> 57)
       \<or> (97 \<le> U \<and> U \<le> 102 \<or> 48 \<le> U \<and> U \<le> 57)
       \<or> (97 \<le> L \<and> L \<le> 102 \<or> 48 \<le> L \<and> L \<le> 57))
      = ((48 \<le> n \<and> n \<le> 57) \<or> (97 \<le> n \<and> n \<le> 102) \<or> (65 \<le> n \<and> n \<le> 70))"
    using fold_char[of c, folded n_def U_def L_def] by arith
  then show ?thesis
    unfolding cm by (simp only: is_hex_def Let_def n_def)
qed

lemma hex_atom: "atom_matches True (Ranges [(CHR ''a'', CHR ''f''), (CHR ''0'', CHR ''9'')]) c = is_hex c"
  by (simp only: atom_matches.simps hex_class)

lemma not_slash_atom: "atom_matches True (NotRanges [(CHR ''/'', CHR ''/'')]) c = (c \<noteq> CHR ''/'')"
  by (simp add: class_single)

lemma not_dash_atom: "atom_matches True (NotRanges [(CHR ''-'', CHR ''-'')]) c = (c \<noteq> CHR ''-'')"
  by (simp add: class_single)

lemma lit_other_atom:
  "(of_char x :: nat) < 65 \<Longrightarrow> atom_matches True (Lit x) c = (c = x)"
  by (simp add: lit_other)

lemma lit_letter_atom:
  "97 \<le> (of_char x :: nat) \<and> (of_char x :: nat) \<le> 122 \<Longrightarrow>
   atom_matches True (Lit x) c = (lower_char c = x)"
  by (simp add: lit_letter)

subsection \<open>Repetition and capture\<close>

lemma ms_Star_set:
  "set (ms ic w (Star r) st) =
     insert st (\<Union>st' \<in> {x \<in> set (ms ic w r st). length (fst x) < length (fst st)}.
                  set (ms ic w (Star r) st'))"
  by (subst ms.simps(8)) auto

lemma recognises_Star:
  assumes r: "recognises ic w r (\<lambda>u s'. A u)" and ne: "\<not> A []"
  shows "recognises ic w (Star r) (\<lambda>u s'. \<exists>us. u = concat us \<and> list_all A us)"
proof (rule recognisesI)
  fix s c
  show "set (ms ic w (Star r) (s, c)) =
          {(s', c) | s'. \<exists>u. s = u @ s' \<and> (\<exists>us. u = concat us \<and> list_all A us)}"
  proof (induction "length s" arbitrary: s rule: less_induct)
    case less
    have step: "{x \<in> set (ms ic w r (s, c)). length (fst x) < length (fst (s, c))}
                = {(s1, c) | s1. \<exists>u. s = u @ s1 \<and> A u}"
    proof -
      have "length s1 < length s" if "s = u @ s1" "A u" for u s1
        using that ne by (cases u) auto
      then show ?thesis
        unfolding recognisesD[OF r] by auto
    qed
    have ih: "set (ms ic w (Star r) (s1, c)) =
          {(s', c) | s'. \<exists>u. s1 = u @ s' \<and> (\<exists>us. u = concat us \<and> list_all A us)}"
      if "s = u @ s1" "A u" for u s1
    proof -
      have "length s1 < length s" using that ne by (cases u) auto
      then show ?thesis by (rule less)
    qed
    show ?case
    proof (rule set_eqI)
      fix st :: mstate
      obtain s' c' where st: "st = (s', c')" by (cases st)
      have "st \<in> set (ms ic w (Star r) (s, c)) \<longleftrightarrow>
            st = (s, c) \<or> (\<exists>s1 u. s = u @ s1 \<and> A u \<and> st \<in> set (ms ic w (Star r) (s1, c)))"
        unfolding ms_Star_set[of ic w r "(s, c)"] step by auto
      also have "\<dots> \<longleftrightarrow> st = (s, c) \<or>
            (\<exists>s1 u. s = u @ s1 \<and> A u \<and> c' = c \<and> (\<exists>us. s1 = concat us @ s' \<and> list_all A us))"
        using ih st by auto
      also have "\<dots> \<longleftrightarrow> c' = c \<and> (\<exists>us. s = concat us @ s' \<and> list_all A us)"
      proof
        assume "st = (s, c) \<or>
            (\<exists>s1 u. s = u @ s1 \<and> A u \<and> c' = c \<and> (\<exists>us. s1 = concat us @ s' \<and> list_all A us))"
        then show "c' = c \<and> (\<exists>us. s = concat us @ s' \<and> list_all A us)"
        proof
          assume "st = (s, c)"
          with st have "c' = c" "s = concat [] @ s'" "list_all A []" by simp_all
          then show ?thesis by blast
        next
          assume "\<exists>s1 u. s = u @ s1 \<and> A u \<and> c' = c \<and> (\<exists>us. s1 = concat us @ s' \<and> list_all A us)"
          then obtain s1 u us where "s = u @ s1" "A u" "c' = c" "s1 = concat us @ s'" "list_all A us"
            by blast
          then have "c' = c" "s = concat (u # us) @ s'" "list_all A (u # us)" by simp_all
          then show ?thesis by blast
        qed
      next
        assume "c' = c \<and> (\<exists>us. s = concat us @ s' \<and> list_all A us)"
        then obtain us where c: "c' = c" and us: "s = concat us @ s'" "list_all A us" by blast
        show "st = (s, c) \<or>
            (\<exists>s1 u. s = u @ s1 \<and> A u \<and> c' = c \<and> (\<exists>us. s1 = concat us @ s' \<and> list_all A us))"
        proof (cases us)
          case Nil
          with us c st show ?thesis by simp
        next
          case (Cons u us')
          with us have "s = u @ (concat us' @ s')" "A u" "list_all A us'" by simp_all
          with c show ?thesis by blast
        qed
      qed
      finally show "st \<in> set (ms ic w (Star r) (s, c)) \<longleftrightarrow>
          st \<in> {(s', c) | s'. \<exists>u. s = u @ s' \<and> (\<exists>us. u = concat us \<and> list_all A us)}"
        using st by auto
    qed
  qed
qed

lemma ms_Group_set:
  assumes "recognises ic w r (\<lambda>u s'. A u)"
  shows "set (ms ic w (Group r) (s, c)) = {(s', Some u) | s' u. s = u @ s' \<and> A u}"
proof -
  have "set (ms ic w (Group r) (s, c)) =
        (\<lambda>st'. (fst st', Some (take (length s - length (fst st')) s))) ` set (ms ic w r (s, c))"
    by simp
  also have "\<dots> = (\<lambda>st'. (fst st', Some (take (length s - length (fst st')) s)))
                     ` {(s', c) | s'. \<exists>u. s = u @ s' \<and> A u}"
    by (simp only: recognisesD[OF assms])
  also have "\<dots> = {(s', Some u) | s' u. s = u @ s' \<and> A u}"
    by (auto simp: image_iff)
  finally show ?thesis .
qed

lemma single_prefix_ex:
  "(\<exists>a b. u = a @ b \<and> (\<exists>x. a = [x] \<and> P x) \<and> Q b) = (\<exists>x b. u = x # b \<and> P x \<and> Q b)"
proof
  assume "\<exists>a b. u = a @ b \<and> (\<exists>x. a = [x] \<and> P x) \<and> Q b"
  then obtain a b x where "u = a @ b" "a = [x]" "P x" "Q b" by blast
  then have "u = x # b \<and> P x \<and> Q b" by simp
  then show "\<exists>x b. u = x # b \<and> P x \<and> Q b" by blast
next
  assume "\<exists>x b. u = x # b \<and> P x \<and> Q b"
  then obtain x b where "u = x # b" "P x" "Q b" by blast
  then have "u = [x] @ b \<and> (\<exists>y. [x] = [y] \<and> P y) \<and> Q b" by simp
  then show "\<exists>a b. u = a @ b \<and> (\<exists>x. a = [x] \<and> P x) \<and> Q b" by blast
qed

lemma recognises_rep_hex: "recognises True w (rep n hex) (\<lambda>u s'. hex_run n u)"
proof (induction n)
  case 0
  show ?case
    unfolding rep.simps
    by (rule recognises_cong[OF recognises_Eps]) (auto simp: hex_run_def)
next
  case (Suc n)
  have a: "recognises True w hex (\<lambda>u s'. \<exists>x. u = [x] \<and> is_hex x)"
    unfolding hex_def by (rule recognises_cong[OF recognises_Atom]) (simp only: hex_atom)
  have "recognises True w (Seq hex (rep n hex))
          (\<lambda>u s'. \<exists>a b. u = a @ b \<and> (\<exists>x. a = [x] \<and> is_hex x) \<and> hex_run n b)"
    by (rule recognises_Seq[OF a Suc])
  then show ?case
    unfolding rep.simps
  proof (rule recognises_cong)
    fix u s'
    show "(\<exists>a b. u = a @ b \<and> (\<exists>x. a = [x] \<and> is_hex x) \<and> hex_run n b) = hex_run (Suc n) u"
      unfolding single_prefix_ex by (cases u) (auto simp: hex_run_def)
  qed
qed

lemma recognises_plus:
  assumes "recognises ic w (Atom a) (\<lambda>u s'. \<exists>x. u = [x] \<and> P x)"
  shows "recognises ic w (plus (Atom a)) (\<lambda>u s'. u \<noteq> [] \<and> list_all P u)"
proof -
  have s: "recognises ic w (Star (Atom a))
             (\<lambda>u s'. \<exists>us. u = concat us \<and> list_all (\<lambda>u. \<exists>x. u = [x] \<and> P x) us)"
    by (rule recognises_Star[OF assms]) simp
  have c: "(\<exists>us. u = concat us \<and> list_all (\<lambda>u. \<exists>x. u = [x] \<and> P x) us) = list_all P u" for u
  proof
    assume "\<exists>us. u = concat us \<and> list_all (\<lambda>u. \<exists>x. u = [x] \<and> P x) us"
    then obtain us where "u = concat us" "list_all (\<lambda>u. \<exists>x. u = [x] \<and> P x) us" by blast
    then show "list_all P u"
      by (induction us arbitrary: u) auto
  next
    assume "list_all P u"
    then have "u = concat (map (\<lambda>x. [x]) u) \<and> list_all (\<lambda>u. \<exists>x. u = [x] \<and> P x) (map (\<lambda>x. [x]) u)"
      by (induction u) auto
    then show "\<exists>us. u = concat us \<and> list_all (\<lambda>u. \<exists>x. u = [x] \<and> P x) us" by blast
  qed
  have s': "recognises ic w (Star (Atom a)) (\<lambda>u s'. list_all P u)"
    by (rule recognises_cong[OF s]) (rule c)
  show ?thesis
    unfolding plus_def
  proof (rule recognises_cong[OF recognises_Seq[OF assms s']])
    fix u s' :: string
    show "(\<exists>a b. u = a @ b \<and> (\<exists>x. a = [x] \<and> P x) \<and> list_all P b) = (u \<noteq> [] \<and> list_all P u)"
      unfolding single_prefix_ex by (cases u) auto
  qed
qed

subsection \<open>The pieces of the link pattern\<close>

lemma lower_char_eq_other:
  assumes "(of_char x :: nat) < 65"
  shows "(lower_char c = x) = (c = x)"
proof -
  define n L k where "n = (of_char c :: nat)" and "L = (of_char (lower_char c) :: nat)"
    and "k = (of_char x :: nat)"
  have k: "k < 65" using assms by (simp only: k_def)
  have "(lower_char c = x) = (L = k)"
    by (simp add: L_def k_def)
  also have "\<dots> = (n = k)"
    using fold_char[of c, folded n_def L_def] k by arith
  also have "\<dots> = (c = x)"
    by (simp add: n_def k_def)
  finally show ?thesis .
qed

lemma lit_lower_atom:
  assumes "lower_lit_char a"
  shows "atom_matches True (Lit a) x = (lower_char x = a)"
proof (cases "97 \<le> (of_char a :: nat) \<and> (of_char a :: nat) \<le> 122")
  case True
  then show ?thesis by (rule lit_letter_atom)
next
  case False
  with assms have "(of_char a :: nat) < 65" by (simp add: lower_lit_char_def)
  then show ?thesis
    by (simp only: lit_other_atom lower_char_eq_other)
qed

lemma recognises_lit:
  "list_all lower_lit_char str \<Longrightarrow> recognises True w (lit str) (\<lambda>u s'. toLowerCase u = str)"
proof (induction str)
  case Nil
  show ?case
    unfolding lit.simps
    by (rule recognises_cong[OF recognises_Eps]) (simp add: toLowerCase_def)
next
  case (Cons a str)
  then have a: "lower_lit_char a" and str: "list_all lower_lit_char str" by simp_all
  have r1: "recognises True w (Atom (Lit a)) (\<lambda>u s'. \<exists>x. u = [x] \<and> lower_char x = a)"
    by (rule recognises_cong[OF recognises_Atom]) (simp only: lit_lower_atom[OF a])
  show ?case
    unfolding lit.simps
  proof (rule recognises_cong[OF recognises_Seq[OF r1 Cons.IH[OF str]]])
    fix u s' :: string
    show "(\<exists>p q. u = p @ q \<and> (\<exists>x. p = [x] \<and> lower_char x = a) \<and> toLowerCase q = str)
          = (toLowerCase u = a # str)"
      unfolding single_prefix_ex by (cases u) (auto simp: toLowerCase_def)
  qed
qed

lemma recognises_host: "recognises True w (lit ''notion.so/'') (\<lambda>u s'. toLowerCase u = ''notion.so/'')"
  by (rule recognises_lit) (simp add: lower_lit_char_def)

lemma lit_slash_atom: "atom_matches True (Lit CHR ''/'') x = (x = CHR ''/'')"
  by (rule lit_other_atom) simp

lemma lit_dash_atom: "atom_matches True (Lit CHR ''-'') x = (x = CHR ''-'')"
  by (rule lit_other_atom) simp

lemma lit_question_atom: "atom_matches True (Lit CHR ''?'') x = (x = CHR ''?'')"
  by (rule lit_other_atom) simp

lemma recognises_workspace:
  "recognises True w
     (Opt (Seq (plus (Atom (NotRanges [(CHR ''/'', CHR ''/'')]))) (Atom (Lit CHR ''/''))))
     (\<lambda>u s'. u = [] \<or> workspace_segment u)"
proof -
  have a: "recognises True w (Atom (NotRanges [(CHR ''/'', CHR ''/'')]))
             (\<lambda>u s'. \<exists>x. u = [x] \<and> x \<noteq> CHR ''/'')"
    by (rule recognises_cong[OF recognises_Atom]) (simp only: not_slash_atom)
  have p: "recognises True w (plus (Atom (NotRanges [(CHR ''/'', CHR ''/'')])))
             (\<lambda>u s'. u \<noteq> [] \<and> list_all (\<lambda>x. x \<noteq> CHR ''/'') u)"
    by (rule recognises_plus[OF a])
  have l: "recognises True w (Atom (Lit CHR ''/'')) (\<lambda>u s'. \<exists>x. u = [x] \<and> x = CHR ''/'')"
    by (rule recognises_cong[OF recognises_Atom]) (simp only: lit_slash_atom)
  show ?thesis
  proof (rule recognises_cong[OF recognises_Opt[OF recognises_Seq[OF p l]]])
    fix u s' :: string
    show "((\<exists>a b. u = a @ b \<and> (a \<noteq> [] \<and> list_all (\<lambda>x. x \<noteq> CHR ''/'') a) \<and> (\<exists>x. b = [x] \<and> x = CHR ''/''))
           \<or> u = []) = (u = [] \<or> workspace_segment u)"
      unfolding workspace_segment_def by (auto simp: list_all_iff)
  qed
qed

lemma recognises_slug:
  "recognises True w (Seq (plus (Atom (NotRanges [(CHR ''-'', CHR ''-'')]))) dash)
     (\<lambda>u s'. slug_segment u)"
proof -
  have a: "recognises True w (Atom (NotRanges [(CHR ''-'', CHR ''-'')]))
             (\<lambda>u s'. \<exists>x. u = [x] \<and> x \<noteq> CHR ''-'')"
    by (rule recognises_cong[OF recognises_Atom]) (simp only: not_dash_atom)
  have p: "recognises True w (plus (Atom (NotRanges [(CHR ''-'', CHR ''-'')])))
             (\<lambda>u s'. u \<noteq> [] \<and> list_all (\<lambda>x. x \<noteq> CHR ''-'') u)"
    by (rule recognises_plus[OF a])
  have l: "recognises True w dash (\<lambda>u s'. \<exists>x. u = [x] \<and> x = CHR ''-'')"
    unfolding dash_def
    by (rule recognises_cong[OF recognises_Atom]) (simp only: lit_dash_atom)
  show ?thesis
  proof (rule recognises_cong[OF recognises_Seq[OF p l]])
    fix u s' :: string
    show "(\<exists>a b. u = a @ b \<and> (a \<noteq> [] \<and> list_all (\<lambda>x. x \<noteq> CHR ''-'') a) \<and> (\<exists>x. b = [x] \<and> x = CHR ''-''))
          = slug_segment u"
      unfolding slug_segment_def by (auto simp: list_all_iff)
  qed
qed

lemma recognises_slugs:
  "recognises True w (Star (Seq (plus (Atom (NotRanges [(CHR ''-'', CHR ''-'')]))) dash))
     (\<lambda>u s'. \<exists>us. u = concat us \<and> list_all slug_segment us)"
  by (rule recognises_Star[OF recognises_slug]) (simp add: slug_segment_def)

lemma ms_Seq_recognised:
  assumes "recognises ic w r1 (\<lambda>u s'. A u)"
  shows "(st' \<in> set (ms ic w (Seq r1 r2) (s, c)))
         = (\<exists>u s1. s = u @ s1 \<and> A u \<and> st' \<in> set (ms ic w r2 (s1, c)))"
proof -
  have "(st' \<in> set (ms ic w (Seq r1 r2) (s, c)))
        = (\<exists>m \<in> set (ms ic w r1 (s, c)). st' \<in> set (ms ic w r2 m))"
    by simp
  also have "\<dots> = (\<exists>u s1. s = u @ s1 \<and> A u \<and> st' \<in> set (ms ic w r2 (s1, c)))"
    unfolding recognisesD[OF assms] by auto
  finally show ?thesis .
qed

lemma ms_re_url:
  "(st' \<in> set (ms True w re_url (s, None)))
   = (\<exists>host ws slugs r. s = host @ ws @ concat slugs @ r @ fst st'
        \<and> toLowerCase host = ''notion.so/''
        \<and> (ws = [] \<or> workspace_segment ws)
        \<and> list_all slug_segment slugs
        \<and> hex_run 32 r \<and> snd st' = Some r)"
proof -
  obtain s' c' where st: "st' = (s', c')" by (cases st')
  have g: "((s', c') \<in> set (ms True w (Group (rep 32 hex)) (s3, None)))
           = (\<exists>r. s3 = r @ s' \<and> hex_run 32 r \<and> c' = Some r)" for s3
    unfolding ms_Group_set[OF recognises_rep_hex] by auto
  show ?thesis
    unfolding st re_url_def
      ms_Seq_recognised[OF recognises_host]
      ms_Seq_recognised[OF recognises_workspace]
      ms_Seq_recognised[OF recognises_slugs] g
    by (simp; blast)
qed

subsection \<open>The leftmost match\<close>

lemma exec_from_None:
  "(exec_from ic w r s = None) = (\<forall>pre s1. s = pre @ s1 \<longrightarrow> ms ic w r (s1, None) = [])"
proof (induction s)
  case Nil
  show ?case by (auto split: list.splits)
next
  case (Cons c cs)
  have "(exec_from ic w r (c # cs) = None)
        = (ms ic w r (c # cs, None) = [] \<and> exec_from ic w r cs = None)"
    by (auto split: list.splits)
  also have "\<dots> = (ms ic w r (c # cs, None) = []
                    \<and> (\<forall>pre s1. cs = pre @ s1 \<longrightarrow> ms ic w r (s1, None) = []))"
    by (simp only: Cons.IH)
  also have "\<dots> = (\<forall>pre s1. c # cs = pre @ s1 \<longrightarrow> ms ic w r (s1, None) = [])"
  proof
    assume h: "ms ic w r (c # cs, None) = []
               \<and> (\<forall>pre s1. cs = pre @ s1 \<longrightarrow> ms ic w r (s1, None) = [])"
    show "\<forall>pre s1. c # cs = pre @ s1 \<longrightarrow> ms ic w r (s1, None) = []"
    proof (intro allI impI)
      fix pre s1 assume e: "c # cs = pre @ s1"
      show "ms ic w r (s1, None) = []"
      proof (cases pre)
        case Nil
        with e h show ?thesis by simp
      next
        case (Cons p pre')
        with e have "cs = pre' @ s1" by simp
        with h show ?thesis by blast
      qed
    qed
  next
    assume h: "\<forall>pre s1. c # cs = pre @ s1 \<longrightarrow> ms ic w r (s1, None) = []"
    have "ms ic w r (c # cs, None) = []"
      using h[rule_format, of "[]" "c # cs"] by simp
    moreover have "ms ic w r (s1, None) = []" if "cs = pre @ s1" for pre s1
      using h[rule_format, of "c # pre" s1] that by simp
    ultimately show "ms ic w r (c # cs, None) = []
               \<and> (\<forall>pre s1. cs = pre @ s1 \<longrightarrow> ms ic w r (s1, None) = [])"
      by blast
  qed
  finally show ?case .
qed

lemma exec_from_Some:
  "exec_from ic w r s = Some st \<Longrightarrow> \<exists>pre s1. s = pre @ s1 \<and> st \<in> set (ms ic w r (s1, None))"
proof (induction s)
  case Nil
  then have "st \<in> set (ms ic w r ([], None))"
    by (auto split: list.splits)
  then show ?case by simp
next
  case (Cons c cs)
  show ?case
  proof (cases "ms ic w r (c # cs, None)")
    case Nil
    with Cons.prems have "exec_from ic w r cs = Some st" by simp
    from Cons.IH[OF this] obtain pre s1 where "cs = pre @ s1" "st \<in> set (ms ic w r (s1, None))"
      by blast
    then have "c # cs = (c # pre) @ s1 \<and> st \<in> set (ms ic w r (s1, None))" by simp
    then show ?thesis by blast
  next
    case (Cons x xs)
    with Cons.prems have "st = x" by simp
    with Cons have "c # cs = [] @ (c # cs) \<and> st \<in> set (ms ic w r (c # cs, None))" by simp
    then show ?thesis by blast
  qed
qed

lemma ms_re_last_hex:
  "(st' \<in> set (ms True w re_last_hex (s, None)))
   = (\<exists>r. hex_run 32 r \<and> snd st' = Some r
          \<and> (s = r @ CHR ''?'' # fst st' \<or> (s = r \<and> fst st' = [])))"
proof -
  obtain s' c' where st: "st' = (s', c')" by (cases st')
  have q: "recognises True w (Atom (Lit CHR ''?'')) (\<lambda>u s'. \<exists>x. u = [x] \<and> x = CHR ''?'')"
    by (rule recognises_cong[OF recognises_Atom]) (simp only: lit_question_atom)
  note x = recognises_Alt[OF q recognises_Eol]
  have "((s', c') \<in> set (ms True w re_last_hex (s, None)))
        = (\<exists>m \<in> set (ms True w (Group (rep 32 hex)) (s, None)).
             (s', c') \<in> set (ms True w (Alt (Atom (Lit CHR ''?'')) Eol) m))"
    by (simp add: re_last_hex_def)
  also have "\<dots> = (\<exists>s1 r. s = r @ s1 \<and> hex_run 32 r
             \<and> (s', c') \<in> set (ms True w (Alt (Atom (Lit CHR ''?'')) Eol) (s1, Some r)))"
    unfolding ms_Group_set[OF recognises_rep_hex] by auto
  also have "\<dots> = (\<exists>s1 r. s = r @ s1 \<and> hex_run 32 r \<and> c' = Some r
             \<and> (\<exists>u. s1 = u @ s' \<and> ((\<exists>x. u = [x] \<and> x = CHR ''?'') \<or> u = [] \<and> s' = [])))"
    unfolding recognisesD[OF x] by auto
  also have "\<dots> = (\<exists>r. hex_run 32 r \<and> c' = Some r \<and> (s = r @ CHR ''?'' # s' \<or> (s = r \<and> s' = [])))"
    by auto
  finally show ?thesis by (simp add: st)
qed

subsection \<open>The patterns and the words of the contract\<close>

lemma notion_urlI:
  assumes "t = pre @ host @ ws @ concat slugs @ r @ post"
    and "toLowerCase host = ''notion.so/''" and "ws = [] \<or> workspace_segment ws"
    and "list_all slug_segment slugs" and "hex_run 32 r"
  shows "notion_url True t r"
  unfolding notion_url_def using assms by (simp only: if_True) blast

lemma notion_urlE:
  assumes "notion_url True t r"
  obtains pre host ws slugs post where "t = pre @ host @ ws @ concat slugs @ r @ post"
    and "toLowerCase host = ''notion.so/''" and "ws = [] \<or> workspace_segment ws"
    and "list_all slug_segment slugs" and "hex_run 32 r"
  using assms unfolding notion_url_def by (simp only: if_True) blast

lemma bare_runI:
  assumes "t = pre @ r @ post" and "hex_run 32 r" and "post = [] \<or> hd post = CHR ''?''"
  shows "bare_run t r"
  unfolding bare_run_def using assms by blast

lemma bare_runE:
  assumes "bare_run t r"
  obtains pre post where "t = pre @ r @ post" and "hex_run 32 r"
    and "post = [] \<or> hd post = CHR ''?''"
  using assms unfolding bare_run_def by blast

lemma re_url_exec_Some:
  assumes "re_exec True re_url t = Some st"
  shows "\<exists>r. capture1 st = Some r \<and> notion_url True t r"
proof -
  from exec_from_Some[OF assms[unfolded re_exec_def]]
  obtain pre s1 where t: "t = pre @ s1" and st: "st \<in> set (ms True t re_url (s1, None))"
    by blast
  from st[unfolded ms_re_url] obtain host ws slugs r where
    "s1 = host @ ws @ concat slugs @ r @ fst st" "toLowerCase host = ''notion.so/''"
    "ws = [] \<or> workspace_segment ws" "list_all slug_segment slugs" "hex_run 32 r"
    "snd st = Some r"
    by blast
  note h = this
  have "t = pre @ host @ ws @ concat slugs @ r @ fst st"
    using t h(1) by simp
  then have "notion_url True t r"
    using h(2-5) by (rule notion_urlI)
  moreover have "capture1 st = Some r"
    using h(6) by (simp add: capture1_def)
  ultimately show ?thesis by blast
qed

lemma re_url_exec_None:
  assumes "re_exec True re_url t = None"
  shows "\<not> notion_url True t r"
proof
  assume "notion_url True t r"
  then obtain pre host ws slugs post where
    t: "t = pre @ (host @ ws @ concat slugs @ r @ post)" and
    h: "toLowerCase host = ''notion.so/''" "ws = [] \<or> workspace_segment ws"
       "list_all slug_segment slugs" "hex_run 32 r"
    by (rule notion_urlE)
  have "(post, Some r) \<in> set (ms True t re_url (host @ ws @ concat slugs @ r @ post, None))"
    unfolding ms_re_url using h by (simp only: fst_conv snd_conv) blast
  moreover have "ms True t re_url (host @ ws @ concat slugs @ r @ post, None) = []"
    using assms[unfolded re_exec_def exec_from_None] t by blast
  ultimately show False by simp
qed

lemma re_last_hex_exec_Some:
  assumes "re_exec True re_last_hex t = Some st"
  shows "\<exists>r. capture1 st = Some r \<and> bare_run t r"
proof -
  from exec_from_Some[OF assms[unfolded re_exec_def]]
  obtain pre s1 where t: "t = pre @ s1" and st: "st \<in> set (ms True t re_last_hex (s1, None))"
    by blast
  from st[unfolded ms_re_last_hex] obtain r where
    r: "hex_run 32 r" "snd st = Some r" and
    c: "s1 = r @ CHR ''?'' # fst st \<or> (s1 = r \<and> fst st = [])"
    by blast
  from c obtain post where "s1 = r @ post" "post = [] \<or> hd post = CHR ''?''"
    by auto
  with t have "t = pre @ r @ post" "post = [] \<or> hd post = CHR ''?''" by simp_all
  then have "bare_run t r"
    using r(1) bare_runI by blast
  moreover have "capture1 st = Some r"
    using r(2) by (simp add: capture1_def)
  ultimately show ?thesis by blast
qed

lemma re_last_hex_exec_None:
  assumes "re_exec True re_last_hex t = None"
  shows "\<not> bare_run t r"
proof
  assume "bare_run t r"
  then obtain pre post where
    t: "t = pre @ (r @ post)" and h: "hex_run 32 r" and p: "post = [] \<or> hd post = CHR ''?''"
    by (rule bare_runE)
  have "\<exists>st. st \<in> set (ms True t re_last_hex (r @ post, None))"
  proof (cases post)
    case Nil
    then have "([], Some r) \<in> set (ms True t re_last_hex (r @ post, None))"
      unfolding ms_re_last_hex using h by simp
    then show ?thesis by blast
  next
    case (Cons q post')
    with p have "post = CHR ''?'' # post'" by simp
    then have "(post', Some r) \<in> set (ms True t re_last_hex (r @ post, None))"
      unfolding ms_re_last_hex using h by simp
    then show ?thesis by blast
  qed
  moreover have "ms True t re_last_hex (r @ post, None) = []"
    using assms[unfolded re_exec_def exec_from_None] t by blast
  ultimately show False by simp
qed

lemma re_test_iff:
  "re_test ic r t = (\<exists>pre s1 st. t = pre @ s1 \<and> st \<in> set (ms ic t r (s1, None)))"
proof -
  have "re_test ic r t = (\<not> (\<forall>pre s1. t = pre @ s1 \<longrightarrow> ms ic t r (s1, None) = []))"
    unfolding re_test_def re_exec_def exec_from_None ..
  also have "\<dots> = (\<exists>pre s1. t = pre @ s1 \<and> ms ic t r (s1, None) \<noteq> [])"
    by blast
  also have "\<dots> = (\<exists>pre s1 st. t = pre @ s1 \<and> st \<in> set (ms ic t r (s1, None)))"
    by (metis ex_in_conv set_empty)
  finally show ?thesis .
qed

lemma ms_Bol_Seq:
  "(st \<in> set (ms ic w (Seq Bol r) (s, c))) = (length s = length w \<and> st \<in> set (ms ic w r (s, c)))"
  by simp

lemma ms_Eol_mem: "(st \<in> set (ms ic w Eol (s, c))) = (s = [] \<and> st = (s, c))"
  by auto

lemma anchored_whole:
  "(\<exists>pre s1. t = pre @ s1 \<and> length s1 = length t \<and> P s1) = P t"
  by (metis append_Nil append_eq_append_conv length_append add_cancel_left_left length_0_conv)

lemma re_id_test: "re_test True re_id t = hex_run 32 t"
proof -
  have "re_test True re_id t
        = (\<exists>pre s1. t = pre @ s1 \<and> length s1 = length t
             \<and> (\<exists>st. st \<in> set (ms True t (Seq (rep 32 hex) Eol) (s1, None))))"
    unfolding re_test_iff re_id_def ms_Bol_Seq by blast
  also have "\<dots> = (\<exists>st. st \<in> set (ms True t (Seq (rep 32 hex) Eol) (t, None)))"
    by (rule anchored_whole)
  also have "\<dots> = hex_run 32 t"
    unfolding ms_Seq_recognised[OF recognises_rep_hex] ms_Eol_mem by auto
  finally show ?thesis .
qed

lemma recognises_dash: "recognises True w dash (\<lambda>u s'. u = ''-'')"
  unfolding dash_def
  by (rule recognises_cong[OF recognises_Atom]) (auto simp only: lit_dash_atom)

lemma ex_ms_Seq_recognised:
  assumes "recognises ic w r1 (\<lambda>u s'. A u)"
  shows "(\<exists>st. st \<in> set (ms ic w (Seq r1 r2) (s, c)))
         = (\<exists>u s1. s = u @ s1 \<and> A u \<and> (\<exists>st. st \<in> set (ms ic w r2 (s1, c))))"
  unfolding ms_Seq_recognised[OF assms] by blast

lemma ex_ms_Eol: "(\<exists>st. st \<in> set (ms ic w Eol (s, c))) = (s = [])"
  by auto

lemma dashed_uuid_nested:
  "dashed_uuid t =
     (\<exists>a s1. t = a @ s1 \<and> hex_run 8 a \<and>
     (\<exists>u s2. s1 = u @ s2 \<and> u = ''-'' \<and>
     (\<exists>b s3. s2 = b @ s3 \<and> hex_run 4 b \<and>
     (\<exists>u s4. s3 = u @ s4 \<and> u = ''-'' \<and>
     (\<exists>c s5. s4 = c @ s5 \<and> hex_run 4 c \<and>
     (\<exists>u s6. s5 = u @ s6 \<and> u = ''-'' \<and>
     (\<exists>d s7. s6 = d @ s7 \<and> hex_run 4 d \<and>
     (\<exists>u s8. s7 = u @ s8 \<and> u = ''-'' \<and>
     (\<exists>e s9. s8 = e @ s9 \<and> hex_run 12 e \<and> s9 = [])))))))))"
  (is "_ = ?N")
proof
  assume "dashed_uuid t"
  then obtain a b c d e where
    t: "t = a @ ''-'' @ b @ ''-'' @ c @ ''-'' @ d @ ''-'' @ e" and
    h: "hex_run 8 a" "hex_run 4 b" "hex_run 4 c" "hex_run 4 d" "hex_run 12 e"
    unfolding dashed_uuid_def by blast
  have t': "t = a @ ''-'' @ b @ ''-'' @ c @ ''-'' @ d @ ''-'' @ e @ []"
    using t by simp
  show ?N
    unfolding t' by (rule exI conjI refl h)+
next
  assume ?N
  then obtain a s1 u1 s2 b s3 u2 s4 c s5 u3 s6 d s7 u4 s8 e s9 where
    "t = a @ s1" "hex_run 8 a" "s1 = u1 @ s2" "u1 = ''-''" "s2 = b @ s3" "hex_run 4 b"
    "s3 = u2 @ s4" "u2 = ''-''" "s4 = c @ s5" "hex_run 4 c" "s5 = u3 @ s6" "u3 = ''-''"
    "s6 = d @ s7" "hex_run 4 d" "s7 = u4 @ s8" "u4 = ''-''" "s8 = e @ s9" "hex_run 12 e"
    "s9 = []"
    by blast
  then have "t = a @ ''-'' @ b @ ''-'' @ c @ ''-'' @ d @ ''-'' @ e
             \<and> hex_run 8 a \<and> hex_run 4 b \<and> hex_run 4 c \<and> hex_run 4 d \<and> hex_run 12 e"
    by simp
  then show "dashed_uuid t"
    unfolding dashed_uuid_def by blast
qed

lemma re_uuid_test: "re_test True re_uuid t = dashed_uuid t"
proof -
  have "re_test True re_uuid t
        = (\<exists>pre s1. t = pre @ s1 \<and> length s1 = length t
             \<and> (\<exists>st. st \<in> set (ms True t
                  (Seq (rep 8 hex) (Seq dash (Seq (rep 4 hex) (Seq dash (Seq (rep 4 hex)
                    (Seq dash (Seq (rep 4 hex) (Seq dash (Seq (rep 12 hex) Eol)))))))))
                  (s1, None))))"
    unfolding re_test_iff re_uuid_def ms_Bol_Seq by blast
  also have "\<dots> = (\<exists>st. st \<in> set (ms True t
                  (Seq (rep 8 hex) (Seq dash (Seq (rep 4 hex) (Seq dash (Seq (rep 4 hex)
                    (Seq dash (Seq (rep 4 hex) (Seq dash (Seq (rep 12 hex) Eol)))))))))
                  (t, None)))"
    by (rule anchored_whole)
  also have "\<dots> = dashed_uuid t"
    unfolding ex_ms_Seq_recognised[OF recognises_rep_hex] ex_ms_Seq_recognised[OF recognises_dash]
      ex_ms_Eol dashed_uuid_nested ..
  finally show ?thesis .
qed

subsection \<open>The rules of extractPageId\<close>

lemma last_dropWhile: "dropWhile P xs \<noteq> [] \<Longrightarrow> last (dropWhile P xs) = last xs"
  by (metis last_appendR takeWhile_dropWhile_id)

lemma trim_idem: "trim (trim s) = trim s"
proof -
  define a where "a = dropWhile is_space s"
  define b where "b = dropWhile is_space (rev a)"
  have t: "trim s = rev b" by (simp add: trim_def a_def b_def)
  have "dropWhile is_space (rev b) = rev b"
  proof (cases "b = []")
    case True
    then show ?thesis by simp
  next
    case False
    then have ne: "rev a \<noteq> []" by (auto simp: b_def)
    have "last b = last (rev a)"
      using False unfolding b_def by (rule last_dropWhile)
    also have "\<dots> = hd a" using ne by (simp add: last_rev)
    finally have "hd (rev b) = hd a" using False by (simp add: hd_rev)
    moreover have "\<not> is_space (hd a)"
      using ne unfolding a_def by (simp add: hd_dropWhile)
    ultimately show ?thesis
      by (simp add: dropWhile_eq_self_iff)
  qed
  moreover have "dropWhile is_space b = b"
    by (simp add: b_def)
  ultimately show ?thesis
    unfolding t by (simp add: trim_def)
qed

lemma rules_empty: "extract_rules ci [] res = (res = None)"
proof -
  have a: "\<not> hex_run 32 []" by (simp add: hex_run_def)
  have b: "\<not> dashed_uuid []" by (simp add: dashed_uuid_def)
  have c: "\<not> (\<exists>r. notion_url ci [] r)"
    by (auto simp: notion_url_def toLowerCase_def)
  have d: "\<not> (\<exists>r. bare_run [] r)"
    by (auto simp: bare_run_def hex_run_def)
  show ?thesis
    unfolding extract_rules_def by (simp only: a b c d if_False)
qed

lemma extractPageId_nonempty:
  assumes s: "s \<noteq> []"
  shows "extract_rules True (trim s) (extractPageId (Some s))"
proof -
  let ?t = "trim s"
  have e: "extractPageId (Some s) =
      (if hex_run 32 ?t then Some ?t
       else if dashed_uuid ?t then Some (filter (\<lambda>c. c \<noteq> CHR ''-'') ?t)
       else (case re_exec True re_url ?t of
               Some urlMatch \<Rightarrow> capture1 urlMatch
             | None \<Rightarrow> (case re_exec True re_last_hex ?t of
                          Some lastHexMatch \<Rightarrow> capture1 lastHexMatch
                        | None \<Rightarrow> None)))"
    using s by (simp add: extractPageId_def or_null_def Let_def re_id_test re_uuid_test)
  show ?thesis
  proof (cases "hex_run 32 ?t \<or> dashed_uuid ?t")
    case True
    then show ?thesis
      unfolding e extract_rules_def by auto
  next
    case False
    show ?thesis
    proof (cases "re_exec True re_url ?t")
      case (Some m)
      from re_url_exec_Some[OF Some] obtain r where "capture1 m = Some r" "notion_url True ?t r"
        by blast
      then show ?thesis
        unfolding e extract_rules_def using False Some by auto
    next
      case None
      have nurl: "\<not> (\<exists>r. notion_url True ?t r)"
        using re_url_exec_None[OF None] by blast
      show ?thesis
      proof (cases "re_exec True re_last_hex ?t")
        case (Some m)
        from re_last_hex_exec_Some[OF Some] obtain r where "capture1 m = Some r" "bare_run ?t r"
          by blast
        then show ?thesis
          unfolding e extract_rules_def using False None Some nurl by auto
      next
        case None2: None
        have nbare: "\<not> (\<exists>r. bare_run ?t r)"
          using re_last_hex_exec_None[OF None2] by blast
        show ?thesis
          unfolding e extract_rules_def using False None None2 nurl nbare by auto
      qed
    qed
  qed
qed

text \<open>
  Claim C2, amended. \<open>extractPageId\<close> removes the whitespace around the input and applies
  its rules to what is left, in order of precedence, the first that applies deciding: a
  text of exactly 32 hexadecimal characters is returned as it is; a text in the dashed
  8-4-4-4-12 shape is returned without its dashes, the case kept; a text holding
  \<open>notion.so/\<close>, in any case of the letters, then at most one workspace segment, then
  slug segments, then a run of 32 hexadecimal characters yields such a run; a text holding
  a run of 32 hexadecimal characters followed at once by the end of the text or by a
  question mark yields such a run; every other text, and an input that is no string,
  yields null.
\<close>

theorem extractPageId_rules:
  "extract_rules True (trim s) (extractPageId (Some s)) \<and> extractPageId None = None"
proof (cases "s = []")
  case True
  then show ?thesis
    by (simp add: rules_empty extractPageId_def or_null_def trim_def)
next
  case False
  then show ?thesis
    using extractPageId_nonempty[OF False] by (simp add: extractPageId_def or_null_def)
qed

text \<open>
  Claim C9. For every input string, \<open>extractPageId\<close> returns on the input what it returns
  on the input with its leading and trailing whitespace removed.
\<close>

theorem extractPageId_trim: "extractPageId (Some s) = extractPageId (Some (trim s))"
proof (cases "s = []")
  case True
  then show ?thesis by (simp add: trim_def)
next
  case False
  show ?thesis
  proof (cases "trim s = []")
    case True
    from extractPageId_nonempty[OF False] have "extractPageId (Some s) = None"
      unfolding True rules_empty .
    then show ?thesis
      using True by (simp add: extractPageId_def or_null_def)
  next
    case nonempty: False
    show ?thesis
      using False nonempty by (simp add: extractPageId_def or_null_def trim_idem)
  qed
qed

lemma dashed_uuid_length: "dashed_uuid s \<Longrightarrow> length s = 36"
  by (auto simp: dashed_uuid_def hex_run_def)

lemma notion_url_exact_host: "notion_url False s r \<Longrightarrow> CHR ''n'' \<in> set s"
  by (auto simp: notion_url_def)

lemma bare_run_end:
  assumes "bare_run s r"
  shows "CHR ''?'' \<in> set s \<or> (s \<noteq> [] \<and> is_hex (last s))"
proof -
  from assms obtain pre post where s: "s = pre @ r @ post" and h: "hex_run 32 r"
    and p: "post = [] \<or> hd post = CHR ''?''"
    by (rule bare_runE)
  from h have rn: "r \<noteq> []"
    by (auto simp: hex_run_def)
  then have "last r \<in> set r" by (rule last_in_set)
  with h rn have r: "r \<noteq> []" "is_hex (last r)"
    by (auto simp: hex_run_def list_all_iff)
  show ?thesis
  proof (cases post)
    case Nil
    with s r show ?thesis by simp
  next
    case (Cons q post')
    with p have "q = CHR ''?''" by simp
    with s Cons show ?thesis by simp
  qed
qed

text \<open>
  Claim C2 as it is stated compares the host text \<open>notion.so/\<close> letter for letter and
  applies the rules to the input as given. Two inputs show that the code does otherwise.
  On \<open>NOTION.SO/\<close>, a run of 32 hexadecimal characters and \<open>/x\<close>, no rule as stated
  applies (the host is in capitals, and the run is followed by a slash), so the claim
  gives null, and the code returns the run. On a run of 32 hexadecimal characters and a
  space, no rule as stated applies (33 characters, and a space follows the run), and the
  code returns the run.
\<close>

theorem extractPageId_literal_rules_fail:
  "\<not> extract_rules False ''NOTION.SO/a1b2c3d4e5f6a1b2c3d4e5f6a1b2c3d4/x''
        (extractPageId (Some ''NOTION.SO/a1b2c3d4e5f6a1b2c3d4e5f6a1b2c3d4/x''))
   \<and> \<not> extract_rules False ''a1b2c3d4e5f6a1b2c3d4e5f6a1b2c3d4 ''
        (extractPageId (Some ''a1b2c3d4e5f6a1b2c3d4e5f6a1b2c3d4 ''))"
proof -
  let ?s1 = "''NOTION.SO/a1b2c3d4e5f6a1b2c3d4e5f6a1b2c3d4/x''"
  let ?s2 = "''a1b2c3d4e5f6a1b2c3d4e5f6a1b2c3d4 ''"
  have v1: "extractPageId (Some ?s1) = Some ''a1b2c3d4e5f6a1b2c3d4e5f6a1b2c3d4''"
    by code_simp
  have v2: "extractPageId (Some ?s2) = Some ''a1b2c3d4e5f6a1b2c3d4e5f6a1b2c3d4''"
    by code_simp
  have a1: "\<not> hex_run 32 ?s1" and a2: "\<not> hex_run 32 ?s2"
    by (simp_all add: hex_run_def)
  have b1: "\<not> dashed_uuid ?s1" and b2: "\<not> dashed_uuid ?s2"
    using dashed_uuid_length[of ?s1] dashed_uuid_length[of ?s2] by auto
  have c1: "\<not> (\<exists>r. notion_url False ?s1 r)" and c2: "\<not> (\<exists>r. notion_url False ?s2 r)"
    using notion_url_exact_host[of ?s1] notion_url_exact_host[of ?s2] by auto
  have x: "\<not> is_hex CHR ''x''" and sp: "\<not> is_hex CHR '' ''"
    by (simp_all add: is_hex_def)
  have d1: "\<not> (\<exists>r. bare_run ?s1 r)"
  proof
    assume "\<exists>r. bare_run ?s1 r"
    then obtain r where "bare_run ?s1 r" ..
    from bare_run_end[OF this] x show False by simp
  qed
  have d2: "\<not> (\<exists>r. bare_run ?s2 r)"
  proof
    assume "\<exists>r. bare_run ?s2 r"
    then obtain r where "bare_run ?s2 r" ..
    from bare_run_end[OF this] sp show False by simp
  qed
  have "\<not> extract_rules False ?s1 (extractPageId (Some ?s1))"
    unfolding v1 extract_rules_def by (simp only: a1 b1 c1 d1 if_False) simp
  moreover have "\<not> extract_rules False ?s2 (extractPageId (Some ?s2))"
    unfolding v2 extract_rules_def by (simp only: a2 b2 c2 d2 if_False) simp
  ultimately show ?thesis by (rule conjI)
qed

theorem extractPageId_rules_witness:
  "trim '' https://www.notion.so/myworkspace/My-Page-a1b2c3d4e5f6a1b2c3d4e5f6a1b2c3d4  ''
     = ''https://www.notion.so/myworkspace/My-Page-a1b2c3d4e5f6a1b2c3d4e5f6a1b2c3d4''
   \<and> notion_url True ''https://www.notion.so/myworkspace/My-Page-a1b2c3d4e5f6a1b2c3d4e5f6a1b2c3d4''
        ''a1b2c3d4e5f6a1b2c3d4e5f6a1b2c3d4''
   \<and> extractPageId (Some '' https://www.notion.so/myworkspace/My-Page-a1b2c3d4e5f6a1b2c3d4e5f6a1b2c3d4  '')
       = Some ''a1b2c3d4e5f6a1b2c3d4e5f6a1b2c3d4''
   \<and> extract_rules True ''https://www.notion.so/myworkspace/My-Page-a1b2c3d4e5f6a1b2c3d4e5f6a1b2c3d4''
        (Some ''a1b2c3d4e5f6a1b2c3d4e5f6a1b2c3d4'')"
proof -
  let ?s = "'' https://www.notion.so/myworkspace/My-Page-a1b2c3d4e5f6a1b2c3d4e5f6a1b2c3d4  ''"
  let ?t = "''https://www.notion.so/myworkspace/My-Page-a1b2c3d4e5f6a1b2c3d4e5f6a1b2c3d4''"
  let ?h = "''a1b2c3d4e5f6a1b2c3d4e5f6a1b2c3d4''"
  have t: "trim ?s = ?t" by code_simp
  have v: "extractPageId (Some ?s) = Some ?h" by code_simp
  have host: "toLowerCase ''notion.so/'' = ''notion.so/''" by code_simp
  have ws: "workspace_segment ''myworkspace/''"
    unfolding workspace_segment_def by (rule exI[of _ "''myworkspace''"]) simp
  have s1: "slug_segment ''My-''"
    unfolding slug_segment_def by (rule exI[of _ "''My''"]) simp
  have s2: "slug_segment ''Page-''"
    unfolding slug_segment_def by (rule exI[of _ "''Page''"]) simp
  have h: "hex_run 32 ?h" by code_simp
  have u: "notion_url True ?t ?h"
    by (rule notion_urlI[where pre = "''https://www.''" and host = "''notion.so/''"
          and ws = "''myworkspace/''" and slugs = "[''My-'', ''Page-'']" and post = "[]"])
       (simp_all add: host ws s1 s2 h)
  have r: "extract_rules True ?t (Some ?h)"
    using extractPageId_rules[of ?s] unfolding t v by (rule conjunct1)
  show ?thesis by (intro conjI t u v r)
qed

theorem extractPageId_trim_witness:
  "extractPageId (Some ''  A1B2C3D4-E5F6-A1B2-C3D4-E5F6A1B2C3D4 '')
     = extractPageId (Some (trim ''  A1B2C3D4-E5F6-A1B2-C3D4-E5F6A1B2C3D4 ''))
   \<and> extractPageId (Some (trim ''  A1B2C3D4-E5F6-A1B2-C3D4-E5F6A1B2C3D4 ''))
     = Some ''A1B2C3D4E5F6A1B2C3D4E5F6A1B2C3D4''"
proof -
  have a: "extractPageId (Some (trim ''  A1B2C3D4-E5F6-A1B2-C3D4-E5F6A1B2C3D4 ''))
     = Some ''A1B2C3D4E5F6A1B2C3D4E5F6A1B2C3D4''"
    by code_simp
  show ?thesis
    using extractPageId_trim[of "''  A1B2C3D4-E5F6-A1B2-C3D4-E5F6A1B2C3D4 ''"] a by (intro conjI)
qed

lemma extractPageId_examples:
  "extractPageId (Some ''a1b2c3d4e5f6a1b2c3d4e5f6a1b2c3d4'') = Some ''a1b2c3d4e5f6a1b2c3d4e5f6a1b2c3d4''"
  "extractPageId (Some ''A1B2C3D4-E5F6-A1B2-C3D4-E5F6A1B2C3D4'') = Some ''A1B2C3D4E5F6A1B2C3D4E5F6A1B2C3D4''"
  "extractPageId (Some ''not a notion link'') = None"
  by code_simp+

end
